theory Spec2Isabelle
  imports Complex_Main
begin

section \<open>Values shared by both subsystems\<close>

text \<open>
  A JavaScript exception is a value of \<open>exn\<close>. \<open>SessionError\<close> carries the path and
  the parameter of the class of that name in \<^verbatim>\<open>../middleware\<close>; \<open>DepthExceeded\<close> is
  the error \<^verbatim>\<open>middleware stack exceeded ${Next.MAX_DEPTH}\<close> built by \<^verbatim>\<open>argv.next\<close>;
  \<open>TypeError\<close> is raised by the runtime on a property read of \<^verbatim>\<open>null\<close>;
  \<open>DuplicateNames\<close> is \<^verbatim>\<open>duplicate command names: "${name}"\<close>; every other error is
  \<open>Failure\<close> with its message.
\<close>

datatype exn =
    SessionError string string
  | DepthExceeded nat
  | TypeError
  | DuplicateNames string
  | Failure string

section \<open>permission.ts: the graph store\<close>

text \<open>
  \<^verbatim>\<open>Computed<boolean>\<close> is a static boolean or a function of the session
  (\<^verbatim>\<open>./filter\<close>). The functions are named by values of a type \<open>'f\<close>, so that
  \<^verbatim>\<open>remove(list, condition)\<close> can compare two conditions as JavaScript does, by
  identity.
\<close>

datatype 'f computed = Static bool | Dynamic 'f

text \<open>
  Of a session the permission code reads \<^verbatim>\<open>user\<close> (here the authority of the
  attached user, \<open>None\<close> when no user is attached), \<^verbatim>\<open>bot?.supports\<close> and
  \<^verbatim>\<open>resolve\<close>. The field \<open>dynamic\<close> gives the truthiness of what each condition
  function returns on this session.
\<close>

record 'f session =
  user :: "real option"
  bot :: "(string \<Rightarrow> exn + bool) option"
  dynamic :: "'f \<Rightarrow> bool"

text \<open>
  Modelled from the spec: \<^verbatim>\<open>Session.resolve\<close> is declared outside the given
  sources. A condition is "a computed boolean (static value or predicate evaluated
  against a partial request context)": a static value resolves to itself, a predicate
  to its value on the session.
\<close>

fun resolve :: "'f session \<Rightarrow> 'f computed \<Rightarrow> bool" where
  "resolve session (Static b) = b"
| "resolve session (Dynamic f) = dynamic session f"

text \<open>
  A JavaScript \<^verbatim>\<open>Map\<close> keeps its keys in insertion order, and \<^verbatim>\<open>set\<close> on a key
  that is present keeps the key's place. It is an association list; \<open>map_set\<close> is
  \<^verbatim>\<open>Map.prototype.set\<close> and \<^const>\<open>map_of\<close> is \<^verbatim>\<open>Map.prototype.get\<close>.
\<close>

fun map_set :: "'k \<Rightarrow> 'v \<Rightarrow> ('k \<times> 'v) list \<Rightarrow> ('k \<times> 'v) list" where
  "map_set k v [] = [(k, v)]"
| "map_set k v (p # ps) = (if fst p = k then (k, v) # ps else p # map_set k v ps)"

text \<open>The only field of class \<^verbatim>\<open>DAG\<close> is \<^verbatim>\<open>store\<close>, so a DAG is its store.\<close>

type_synonym 'f edges = "(string \<times> 'f computed list) list"
type_synonym 'f DAG = "(string \<times> 'f edges) list"

definition link :: "string \<Rightarrow> string \<Rightarrow> 'f computed \<Rightarrow> 'f DAG \<Rightarrow> 'f DAG" where
  "link source target condition store =
     (let m = (case map_of store source of None \<Rightarrow> [] | Some m \<Rightarrow> m);
          list = (case map_of m target of None \<Rightarrow> [] | Some list \<Rightarrow> list)
      in map_set source (map_set target (list @ [condition]) m) store)"

text \<open>
  \<^verbatim>\<open>remove\<close> of cosmokit deletes the first occurrence of the item, if there is one:
  \<^const>\<open>remove1\<close>.
\<close>

definition unlink :: "string \<Rightarrow> string \<Rightarrow> 'f computed \<Rightarrow> 'f DAG \<Rightarrow> 'f DAG" where
  "unlink source target condition store =
     (case map_of store source of
        None \<Rightarrow> store
      | Some m \<Rightarrow>
          (case map_of m target of
             None \<Rightarrow> store
           | Some list \<Rightarrow> map_set source (map_set target (remove1 condition list) m) store))"

text \<open>
  The body of \<^verbatim>\<open>for (const [key, conditions] of map)\<close>: the keys pushed on the
  queue, in the order of the map. An edge is skipped when
  \<^verbatim>\<open>conditions.every(value => !session.resolve(value))\<close>.
\<close>

definition skipped :: "'f session \<Rightarrow> 'f computed list \<Rightarrow> bool" where
  "skipped session conditions = list_all (\<lambda>value. \<not> resolve session value) conditions"

definition pushed :: "'f session \<Rightarrow> 'f edges \<Rightarrow> string list" where
  "pushed session m = map fst (filter (\<lambda>(key, conditions). \<not> skipped session conditions) m)"

text \<open>The nodes that occur as a target of some edge of the store.\<close>

definition targets :: "'f DAG \<Rightarrow> string set" where
  "targets store = (\<Union>(source, m) \<in> set store. fst ` set m)"

text \<open>
  The loop \<^verbatim>\<open>while ((node = queue.shift()))\<close>. It ends when the queue is empty
  (\<^verbatim>\<open>shift\<close> gives \<^verbatim>\<open>undefined\<close>) and also when the node taken from the queue is the
  empty string, which is falsy too. \<open>result\<close> is the \<^verbatim>\<open>Set\<close>, in insertion order.
\<close>

function subgraph_loop :: "'f DAG \<Rightarrow> 'f session \<Rightarrow> string list \<Rightarrow> string list \<Rightarrow> string list" where
  "subgraph_loop store session [] result = result"
| "subgraph_loop store session (node # queue) result =
     (if node = [] then result
      else if node \<in> set result then subgraph_loop store session queue result
      else (case map_of store node of
              None \<Rightarrow> subgraph_loop store session queue (result @ [node])
            | Some m \<Rightarrow> subgraph_loop store session (queue @ pushed session m) (result @ [node])))"
  by pat_completeness auto

lemma pushed_targets: "map_of store node = Some m \<Longrightarrow> set (pushed session m) \<subseteq> targets store"
  by (auto simp: pushed_def targets_def dest!: map_of_SomeD)

lemma card_unvisited_le:
  "finite U \<Longrightarrow> U' \<subseteq> U \<Longrightarrow> card (U' - R) \<le> card (U - R)"
  by (rule card_mono) auto

lemma card_unvisited_less:
  "finite U \<Longrightarrow> U' \<subseteq> U \<Longrightarrow> node \<in> U \<Longrightarrow> node \<notin> R \<Longrightarrow>
     card (U' - insert node R) < card (U - R)"
  by (rule psubset_card_mono) auto

lemma finite_targets: "finite (targets store)"
  by (auto simp: targets_def)

termination subgraph_loop
proof (relation "inv_image (less_than <*lex*> less_than)
    (\<lambda>(store, session, queue, result).
       (card ((targets store \<union> set queue) - set result), length queue))", goal_cases)
  case 1
  show ?case by (intro wf_inv_image wf_lex_prod wf_less_than)
next
  case (2 store session node queue result)
  have "card ((targets store \<union> set queue) - set result)
      \<le> card ((targets store \<union> set (node # queue)) - set result)"
    by (rule card_unvisited_le) (auto simp: finite_targets)
  then show ?case by auto
next
  case (3 store session node queue result)
  have "card ((targets store \<union> set queue) - insert node (set result))
      < card ((targets store \<union> set (node # queue)) - set result)"
    using 3 by (intro card_unvisited_less) (auto simp: finite_targets)
  then show ?case by simp
next
  case (4 store session node queue result m)
  have "card ((targets store \<union> set (queue @ pushed session m)) - insert node (set result))
      < card ((targets store \<union> set (node # queue)) - set result)"
    using 4 pushed_targets [of store node m session]
    by (intro card_unvisited_less) (auto simp: finite_targets)
  then show ?case by simp
qed

definition subgraph :: "string list \<Rightarrow> 'f session \<Rightarrow> 'f DAG \<Rightarrow> string list" where
  "subgraph parents session store = subgraph_loop store session parents []"

section \<open>permission.ts: providers and \<^verbatim>\<open>check\<close>\<close>

text \<open>
  \<^verbatim>\<open>Permissions.ProvideCallback\<close>: the callback returns (the truthiness of) its
  answer, or throws (or rejects).
\<close>

type_synonym 'f ProvideCallback = "string \<Rightarrow> 'f session \<Rightarrow> exn + bool"

text \<open>
  \<open>emitted\<close> counts the \<^verbatim>\<open>internal/permission\<close> events sent so far. \<open>providers\<close> is
  the dictionary as \<^verbatim>\<open>Object.entries\<close> lists it: first the keys that are array
  indices, in ascending order, then the other keys in the order of their insertion.
\<close>

record 'f Permissions =
  inherits :: "'f DAG"
  depends :: "'f DAG"
  providers :: "(string \<times> 'f ProvideCallback) list"
  emitted :: nat

text \<open>
  An array index is a key that is the decimal numeral, without sign and without leading
  zero, of a number below \<open>2\<^sup>3\<^sup>2 - 1\<close>.
\<close>

definition digit :: "char \<Rightarrow> bool" where
  "digit c \<longleftrightarrow> 48 \<le> (of_char c :: nat) \<and> (of_char c :: nat) \<le> 57"

definition decimal :: "string \<Rightarrow> nat" where
  "decimal key = foldl (\<lambda>n c. 10 * n + ((of_char c :: nat) - 48)) 0 key"

definition array_index :: "string \<Rightarrow> nat option" where
  "array_index key =
     (if key \<noteq> [] \<and> list_all digit key \<and> (hd key \<noteq> CHR ''0'' \<or> key = ''0'')
         \<and> decimal key < 2 ^ 32 - 1
      then Some (decimal key) else None)"

text \<open>
  The place of a new array index \<open>i\<close> among the entries: after the array indices
  below it.
\<close>

fun place_index :: "nat \<Rightarrow> string \<times> 'v \<Rightarrow> (string \<times> 'v) list \<Rightarrow> (string \<times> 'v) list" where
  "place_index i entry [] = [entry]"
| "place_index i entry (p # ps) =
     (case array_index (fst p) of
        Some j \<Rightarrow> if j < i then p # place_index i entry ps else entry # p # ps
      | None \<Rightarrow> entry # p # ps)"

text \<open>
  The assignment \<^verbatim>\<open>object[key] = v\<close> on the entries: a key that is present keeps
  its place, a new array index goes to its place among the array indices, any other
  new key goes to the end.
\<close>

definition object_set :: "string \<Rightarrow> 'v \<Rightarrow> (string \<times> 'v) list \<Rightarrow> (string \<times> 'v) list" where
  "object_set key v entries =
     (if key \<in> fst ` set entries then map (\<lambda>p. if fst p = key then (key, v) else p) entries
      else (case array_index key of
              Some i \<Rightarrow> place_index i (key, v) entries
            | None \<Rightarrow> entries @ [(key, v)]))"

definition provide :: "string \<Rightarrow> 'f ProvideCallback \<Rightarrow> 'f Permissions \<Rightarrow> 'f Permissions" where
  "provide name callback perms = perms\<lparr>providers := object_set name callback (providers perms)\<rparr>"

text \<open>\<^verbatim>\<open>key.endsWith('*')\<close>, \<^verbatim>\<open>name.startsWith(prefix)\<close> and the filter of \<^verbatim>\<open>check\<close>.\<close>

definition endsWith_star :: "string \<Rightarrow> bool" where
  "endsWith_star key \<longleftrightarrow> key \<noteq> [] \<and> last key = CHR ''*''"

definition startsWith :: "string \<Rightarrow> string \<Rightarrow> bool" where
  "startsWith name prefix \<longleftrightarrow> take (length prefix) name = prefix"

definition matches :: "string \<Rightarrow> string \<Rightarrow> bool" where
  "matches name key \<longleftrightarrow> name = key \<or> (endsWith_star key \<and> startsWith name (butlast key))"

text \<open>
  \<^verbatim>\<open>for (const callback of callbacks) if (!await callback(name, session)) return false\<close>.
  Beside the outcome the loop gives the keys of the callbacks it has called, in order.
\<close>

fun check_loop :: "(string \<times> 'f ProvideCallback) list \<Rightarrow> string \<Rightarrow> 'f session \<Rightarrow> (exn + bool) \<times> string list" where
  "check_loop [] name session = (Inr True, [])"
| "check_loop ((key, callback) # callbacks) name session =
     (case callback name session of
        Inl error \<Rightarrow> (Inl error, [key])
      | Inr b \<Rightarrow>
          if \<not> b then (Inr False, [key])
          else (case check_loop callbacks name session of (r, keys) \<Rightarrow> (r, key # keys)))"

text \<open>
  The entries that \<^verbatim>\<open>check\<close> keeps: \<^verbatim>\<open>Object.entries(this.#providers).filter(...)\<close>.
  The key stays with its callback, to name the callback in \<open>invoked\<close> below.
\<close>

definition matching :: "(string \<times> 'f ProvideCallback) list \<Rightarrow> string \<Rightarrow> (string \<times> 'f ProvideCallback) list" where
  "matching entries name = filter (\<lambda>(key, value). matches name key) entries"

text \<open>The \<^verbatim>\<open>try\<close> block of \<^verbatim>\<open>check\<close>.\<close>

definition check_try :: "(string \<times> 'f ProvideCallback) list \<Rightarrow> string \<Rightarrow> 'f session \<Rightarrow> (exn + bool) \<times> string list" where
  "check_try entries name session =
     (let callbacks = matching entries name
      in if callbacks = [] then (Inr False, []) else check_loop callbacks name session)"

text \<open>
  What a call of \<^verbatim>\<open>check\<close> does: the boolean it resolves to, the callbacks it has
  called and the errors given to \<^verbatim>\<open>logger.warn\<close>.
\<close>

record check_result =
  answer :: bool
  invoked :: "string list"
  warned :: "exn list"

definition check :: "'f Permissions \<Rightarrow> string \<Rightarrow> 'f session \<Rightarrow> check_result" where
  "check perms name session =
     (case check_try (providers perms) name session of
        (Inl error, keys) \<Rightarrow> \<lparr>answer = False, invoked = keys, warned = [error]\<rparr>
      | (Inr b, keys) \<Rightarrow> \<lparr>answer = b, invoked = keys, warned = []\<rparr>)"

section \<open>permission.ts: the resolver\<close>

text \<open>
  The built-in providers. \<open>to_number\<close> is the unary \<^verbatim>\<open>+\<close> of JavaScript on a string,
  \<open>None\<close> for \<^verbatim>\<open>NaN\<close>, with which every comparison is false.
\<close>

definition authority_provider :: "(string \<Rightarrow> real option) \<Rightarrow> 'f ProvideCallback" where
  "authority_provider to_number name session =
     (let value = to_number (drop 10 name)
      in Inr (case user session of
                None \<Rightarrow> True
              | Some authority \<Rightarrow> (case value of None \<Rightarrow> False | Some v \<Rightarrow> authority \<ge> v)))"

definition bot_provider :: "'f ProvideCallback" where
  "bot_provider name session =
     (case bot session of None \<Rightarrow> Inr False | Some supports \<Rightarrow> supports (drop 4 name))"

definition Permissions_new :: "(string \<Rightarrow> real option) \<Rightarrow> 'f Permissions" where
  "Permissions_new to_number =
     provide ''bot.*'' bot_provider
       (provide ''authority.*'' (authority_provider to_number)
          \<lparr>inherits = [], depends = [], providers = [], emitted = 0\<rparr>)"

text \<open>
  \<^verbatim>\<open>inherit\<close> and \<^verbatim>\<open>depend\<close>, each with the callback it hands to
  \<^verbatim>\<open>collect\<close>, which is what removes the edge again.
\<close>

definition inherit :: "string \<Rightarrow> string \<Rightarrow> 'f computed \<Rightarrow> 'f Permissions \<Rightarrow> 'f Permissions" where
  "inherit child parent condition perms =
     perms\<lparr>inherits := link parent child condition (inherits perms), emitted := emitted perms + 1\<rparr>"

definition inherit_dispose :: "string \<Rightarrow> string \<Rightarrow> 'f computed \<Rightarrow> 'f Permissions \<Rightarrow> 'f Permissions" where
  "inherit_dispose child parent condition perms =
     perms\<lparr>inherits := unlink parent child condition (inherits perms), emitted := emitted perms + 1\<rparr>"

definition depend :: "string \<Rightarrow> string \<Rightarrow> 'f computed \<Rightarrow> 'f Permissions \<Rightarrow> 'f Permissions" where
  "depend dependent' dependency condition perms =
     perms\<lparr>depends := link dependent' dependency condition (depends perms), emitted := emitted perms + 1\<rparr>"

definition depend_dispose :: "string \<Rightarrow> string \<Rightarrow> 'f computed \<Rightarrow> 'f Permissions \<Rightarrow> 'f Permissions" where
  "depend_dispose dependent' dependency condition perms =
     perms\<lparr>depends := unlink dependent' dependency condition (depends perms), emitted := emitted perms + 1\<rparr>"

text \<open>
  \<^verbatim>\<open>parents.map(parent => cache[parent] ||= this.check(parent, session))\<close>: a parent
  found in the cache is not checked again. The cache maps a name to what its check
  resolves to.
\<close>

fun check_cached :: "'f Permissions \<Rightarrow> 'f session \<Rightarrow> (string \<rightharpoonup> bool) \<Rightarrow> string list \<Rightarrow> bool list \<times> (string \<rightharpoonup> bool)" where
  "check_cached perms session cache [] = ([], cache)"
| "check_cached perms session cache (parent # parents) =
     (case cache parent of
        Some b \<Rightarrow>
          (case check_cached perms session cache parents of (results, cache') \<Rightarrow> (b # results, cache'))
      | None \<Rightarrow>
          (let b = answer (check perms parent session)
           in case check_cached perms session (cache(parent \<mapsto> b)) parents of
                (results, cache') \<Rightarrow> (b # results, cache')))"

text \<open>The loop of \<^verbatim>\<open>test\<close> over the names of the dependency subgraph.\<close>

fun test_loop :: "'f Permissions \<Rightarrow> string list \<Rightarrow> 'f session \<Rightarrow> (string \<rightharpoonup> bool) \<Rightarrow> string list \<Rightarrow> bool" where
  "test_loop perms x session cache [] = True"
| "test_loop perms x session cache (name # names) =
     (let parents = subgraph [name] session (inherits perms)
      in if list_ex (\<lambda>parent. parent \<in> set x) parents then test_loop perms x session cache names
         else (case check_cached perms session cache parents of
                 (results, cache') \<Rightarrow>
                   if list_ex (\<lambda>result. result) results then test_loop perms x session cache' names
                   else False))"

definition test :: "string list \<Rightarrow> string list \<Rightarrow> 'f session \<Rightarrow> 'f Permissions \<Rightarrow> bool" where
  "test x y session perms = test_loop perms x session Map.empty (subgraph y session (depends perms))"

text \<open>The edges that \<^verbatim>\<open>subgraph\<close> reads for a node: those of \<^verbatim>\<open>store.get(node)\<close>, none when it is absent.\<close>

definition outgoing :: "'f DAG \<Rightarrow> string \<Rightarrow> 'f edges" where
  "outgoing store node = (case map_of store node of None \<Rightarrow> [] | Some m \<Rightarrow> m)"

text \<open>
  The edges that can be traversed on a session: from \<open>u\<close> to \<open>v\<close> when the store has
  an edge from \<open>u\<close> to \<open>v\<close> with at least one condition that resolves to true.
\<close>

definition traversable :: "'f DAG \<Rightarrow> 'f session \<Rightarrow> (string \<times> string) set" where
  "traversable store session =
     {(u, v). \<exists>m conditions. map_of store u = Some m \<and> (v, conditions) \<in> set m
                \<and> (\<exists>value \<in> set conditions. resolve session value)}"

section \<open>command.ts: the registry of aliases\<close>

text \<open>
  What a checker, an action or a continuation gives back: \<open>Nullish\<close> is \<^verbatim>\<open>null\<close> or
  \<^verbatim>\<open>undefined\<close> (\<^verbatim>\<open>isNullable\<close>), \<open>Fragment\<close> is any other value. An outcome is that
  value, or the exception thrown.
\<close>

datatype ret = Nullish | Fragment string

type_synonym outcome = "exn + ret"

text \<open>
  An action, a callback given to \<^verbatim>\<open>next\<close> and the fallback are described by what they
  do with \<^verbatim>\<open>argv.next\<close>: return a value, throw, or call \<^verbatim>\<open>await argv.next(callback)\<close>
  and go on with what the call gave, a value or an exception (so an action can catch the
  exception of a later continuation). A callback is a function or a plain value
  (\<^verbatim>\<open>Next.Callback\<close>); \<open>None\<close> stands for \<^verbatim>\<open>undefined\<close>.
\<close>

datatype 'p callback = CbValue ret | CbFun 'p

datatype prog = Return ret | Throw exn | CallNext "prog callback option" "outcome \<Rightarrow> prog"

text \<open>
  Of \<^verbatim>\<open>argv\<close> the pipeline reads \<^verbatim>\<open>error\<close>, \<^verbatim>\<open>args\<close> and \<^verbatim>\<open>session.text\<close>
  (\<open>session_text\<close>, with \<open>[]\<close> where no parameter is given).
\<close>

record 'a Argv =
  error :: string
  args :: 'a
  session_text :: "string \<Rightarrow> string \<Rightarrow> string"

text \<open>\<^verbatim>\<open>config.handleError\<close>: a boolean or a function.\<close>

datatype 'a handler = Policy bool | Handler "exn \<Rightarrow> 'a Argv \<Rightarrow> outcome"

text \<open>
  A command. \<open>ref\<close> is the identity of the object (\<^verbatim>\<open>previous !== this\<close> compares
  two of them), \<open>cmd_name\<close> is \<^verbatim>\<open>name\<close> and \<open>parent_name\<close> is \<^verbatim>\<open>parent.name\<close>, \<open>None\<close>
  when \<^verbatim>\<open>parent\<close> is \<^verbatim>\<open>null\<close>.
\<close>

record 'a Command =
  ref :: nat
  cmd_name :: string
  parent_name :: "string option"
  aliases :: "string list"
  checkers :: "('a Argv \<Rightarrow> outcome) list"
  actions :: "('a Argv \<Rightarrow> prog) list"
  handleError :: "'a handler"

text \<open>
  Modelled from the spec: \<^verbatim>\<open>ctx.$commander\<close> is declared outside the given sources.
  "The Command Registry exclusively owns the alias\<rightarrow>Command map and the flat command
  list": \<open>commands\<close> is the map read by \<^verbatim>\<open>get\<close> and written by \<^verbatim>\<open>set\<close>,
  \<open>commandList\<close> is \<^verbatim>\<open>_commandList\<close>.
\<close>

record Commander =
  commands :: "string \<rightharpoonup> nat"
  commandList :: "nat list"

text \<open>\<^verbatim>\<open>String.prototype.toLowerCase\<close>, on the letters of ASCII.\<close>

definition toLowerCase :: "string \<Rightarrow> string" where
  "toLowerCase = map (\<lambda>c. let n = of_char c :: nat in if 65 \<le> n \<and> n \<le> 90 then char_of (n + 32) else c)"

text \<open>
  \<^verbatim>\<open>_registerAlias\<close>. The command and the registry are given back as they are when the
  call ends, whether it returns or throws.
\<close>

definition registerAlias ::
  "string \<Rightarrow> bool \<Rightarrow> 'a Command \<Rightarrow> Commander \<Rightarrow> (exn + unit) \<times> 'a Command \<times> Commander" where
  "registerAlias name0 prepend cmd commander =
     (let name1 = toLowerCase name0
      in case (if startsWith name1 ''.''
               then (case parent_name cmd of None \<Rightarrow> Inl TypeError | Some p \<Rightarrow> Inr (p @ name1))
               else Inr name1) of
           Inl e \<Rightarrow> (Inl e, cmd, commander)
         | Inr name \<Rightarrow>
             if name \<in> set (aliases cmd)
             then (Inr (),
                   (if prepend then cmd\<lparr>aliases := name # remove1 name (aliases cmd)\<rparr> else cmd),
                   commander)
             else
               (let cmd1 = (if prepend then cmd\<lparr>aliases := name # aliases cmd\<rparr>
                            else cmd\<lparr>aliases := aliases cmd @ [name]\<rparr>)
                in case commands commander name of
                     None \<Rightarrow> (Inr (), cmd1, commander\<lparr>commands := (commands commander)(name \<mapsto> ref cmd)\<rparr>)
                   | Some previous \<Rightarrow>
                       if previous \<noteq> ref cmd then (Inl (DuplicateNames name), cmd1, commander)
                       else (Inr (), cmd1, commander)))"

text \<open>\<^verbatim>\<open>alias(...names)\<close>: the names in order, up to the first that throws.\<close>

fun alias_cmd :: "string list \<Rightarrow> 'a Command \<Rightarrow> Commander \<Rightarrow> (exn + unit) \<times> 'a Command \<times> Commander" where
  "alias_cmd [] cmd commander = (Inr (), cmd, commander)"
| "alias_cmd (name # names) cmd commander =
     (case registerAlias name False cmd commander of
        (Inl e, cmd', commander') \<Rightarrow> (Inl e, cmd', commander')
      | (Inr u, cmd', commander') \<Rightarrow> alias_cmd names cmd' commander')"

text \<open>
  The constructor. \<open>new_ref\<close> is the identity of the object under construction and
  \<open>before_execute\<close> is what \<^verbatim>\<open>ctx.serial(argv.session, 'command/before-execute', argv)\<close>
  gives, the body of the first checker. \<^verbatim>\<open>Command.defaultConfig\<close> has
  \<^verbatim>\<open>handleError: true\<close>. The constructor of the base class is outside the given
  sources; it is taken to accept the name and to leave the registry alone. When the
  constructor throws there is no command.
\<close>

definition Command_new ::
  "nat \<Rightarrow> string \<Rightarrow> ('a Argv \<Rightarrow> outcome) \<Rightarrow> Commander \<Rightarrow> (exn + 'a Command) \<times> Commander" where
  "Command_new new_ref name0 before_execute commander =
     (let this = \<lparr>ref = new_ref, cmd_name = name0, parent_name = None, aliases = [],
                   checkers = [before_execute], actions = [], handleError = Policy True\<rparr>
      in case registerAlias name0 False this commander of
           (Inl e, this', commander') \<Rightarrow> (Inl e, commander')
         | (Inr u, this', commander') \<Rightarrow>
             (Inr this', commander'\<lparr>commandList := commandList commander' @ [new_ref]\<rparr>))"

section \<open>command.ts: checkers, actions and \<^verbatim>\<open>execute\<close>\<close>

text \<open>\<^verbatim>\<open>before\<close>, \<^verbatim>\<open>check\<close> and \<^verbatim>\<open>action\<close>: \<^verbatim>\<open>unshift\<close> puts the callback first, \<^verbatim>\<open>push\<close> last.\<close>

definition before :: "('a Argv \<Rightarrow> outcome) \<Rightarrow> bool \<Rightarrow> 'a Command \<Rightarrow> 'a Command" where
  "before callback append' cmd =
     (if append' then cmd\<lparr>checkers := checkers cmd @ [callback]\<rparr>
      else cmd\<lparr>checkers := callback # checkers cmd\<rparr>)"

definition check_cmd :: "('a Argv \<Rightarrow> outcome) \<Rightarrow> bool \<Rightarrow> 'a Command \<Rightarrow> 'a Command" where
  "check_cmd callback append' cmd = before callback append' cmd"

definition action :: "('a Argv \<Rightarrow> prog) \<Rightarrow> bool \<Rightarrow> 'a Command \<Rightarrow> 'a Command" where
  "action callback prepend cmd =
     (if prepend then cmd\<lparr>actions := callback # actions cmd\<rparr>
      else cmd\<lparr>actions := actions cmd @ [callback]\<rparr>)"

text \<open>
  What an execution leaves behind, in order: the checker at a place of \<^verbatim>\<open>_checkers\<close> was
  called; \<^verbatim>\<open>queue[i]\<close> was called; \<^verbatim>\<open>next\<close> moved the cursor from \<open>i\<close> with no
  \<^verbatim>\<open>queue[i]\<close> to call; the error was logged and \<^verbatim>\<open>command-error\<close> was emitted.
\<close>

datatype event = Checker nat | Invoke nat | Idle nat | CommandError exn

text \<open>The variables that \<^verbatim>\<open>argv.next\<close> closes over, and the events so far.\<close>

record xstate =
  queue :: "prog list"
  index :: nat
  trace :: "event list"

text \<open>
  Modelled from the spec: \<^verbatim>\<open>Next.compose\<close> is declared outside the given sources.
  \<^verbatim>\<open>next\<close> "optionally accepts a callback to splice in as an additional
  continuation": a function is called with \<^verbatim>\<open>next\<close>, any other value is the result.
\<close>

fun compose :: "prog callback \<Rightarrow> prog" where
  "compose (CbFun p) = p"
| "compose (CbValue v) = Return v"

text \<open>
  \<^verbatim>\<open>argv.next\<close>. \<open>exec\<close> runs a continuation of the queue; \<open>max_depth\<close> is
  \<^verbatim>\<open>Next.MAX_DEPTH\<close>, a constant of \<^verbatim>\<open>../middleware\<close>.
\<close>

definition argv_next ::
  "(prog \<Rightarrow> xstate \<Rightarrow> (outcome \<times> xstate) option) \<Rightarrow> nat \<Rightarrow> prog callback option \<Rightarrow> xstate
     \<Rightarrow> (outcome \<times> xstate) option" where
  "argv_next exec max_depth callback s =
     (let s1 = (case callback of None \<Rightarrow> s | Some cb \<Rightarrow> s\<lparr>queue := queue s @ [compose cb]\<rparr>)
      in if callback \<noteq> None \<and> length (queue s1) > max_depth
         then Some (Inl (DepthExceeded max_depth), s1)
         else let i = index s1; s2 = s1\<lparr>index := i + 1\<rparr>
              in if i < length (queue s1)
                 then exec (queue s1 ! i) (s2\<lparr>trace := trace s2 @ [Invoke i]\<rparr>)
                 else Some (Inr Nullish, s2\<lparr>trace := trace s2 @ [Idle i]\<rparr>))"

text \<open>
  Running a continuation. A continuation may call \<^verbatim>\<open>next\<close> without end, so the run is
  bounded by \<open>fuel\<close>, and \<open>None\<close> says that the fuel did not suffice.
\<close>

fun run :: "nat \<Rightarrow> nat \<Rightarrow> prog \<Rightarrow> xstate \<Rightarrow> (outcome \<times> xstate) option" where
  "run 0 max_depth p s = None"
| "run (Suc fuel) max_depth (Return v) s = Some (Inr v, s)"
| "run (Suc fuel) max_depth (Throw e) s = Some (Inl e, s)"
| "run (Suc fuel) max_depth (CallNext callback k) s =
     (case argv_next (run fuel max_depth) max_depth callback s of
        None \<Rightarrow> None
      | Some (r, s') \<Rightarrow> run fuel max_depth (k r) s')"

text \<open>
  The loop over \<^verbatim>\<open>_checkers\<close>, from place \<open>k\<close> on: \<open>Some\<close> when a checker ends the
  execution, by a result that is not nullable or by an exception, which is outside the
  \<^verbatim>\<open>try\<close> block.
\<close>

fun run_checkers :: "('a Argv \<Rightarrow> outcome) list \<Rightarrow> 'a Argv \<Rightarrow> nat \<Rightarrow> outcome option \<times> event list" where
  "run_checkers [] argv k = (None, [])"
| "run_checkers (validator # rest) argv k =
     (case validator argv of
        Inl e \<Rightarrow> (Some (Inl e), [Checker k])
      | Inr result \<Rightarrow>
          if result \<noteq> Nullish then (Some (Inr result), [Checker k])
          else (case run_checkers rest argv (Suc k) of (r, events) \<Rightarrow> (r, Checker k # events)))"

text \<open>\<^verbatim>\<open>if (!isNullable(result)) return result\<close>, and \<^verbatim>\<open>return ''\<close> at the end.\<close>

definition or_empty :: "ret \<Rightarrow> ret" where
  "or_empty result = (if result \<noteq> Nullish then result else Fragment [])"

text \<open>
  The \<^verbatim>\<open>catch\<close> block after its first line: a \<^verbatim>\<open>SessionError\<close> becomes its text;
  any other error is logged and emitted, and then \<^verbatim>\<open>config.handleError\<close> decides. A
  handler that throws rejects the execution; \<^verbatim>\<open>false\<close> falls through to \<^verbatim>\<open>return ''\<close>.
\<close>

definition by_policy :: "'a Command \<Rightarrow> 'a Argv \<Rightarrow> exn \<Rightarrow> event list \<Rightarrow> outcome \<times> event list" where
  "by_policy cmd argv e events =
     (case e of
        SessionError path param \<Rightarrow> (Inr (Fragment (session_text argv path param)), events)
      | _ \<Rightarrow>
          (case handleError cmd of
             Handler h \<Rightarrow>
               (case h e argv of
                  Inl e' \<Rightarrow> (Inl e', events @ [CommandError e])
                | Inr result \<Rightarrow> (Inr (or_empty result), events @ [CommandError e]))
           | Policy b \<Rightarrow>
               if b then (Inr (Fragment (session_text argv ''internal.error-encountered'' [])),
                          events @ [CommandError e])
               else (Inr (Fragment []), events @ [CommandError e])))"

text \<open>
  The \<^verbatim>\<open>catch\<close> block, entered with the cursor at \<open>index s\<close>:
  \<^verbatim>\<open>if (index === length) throw error\<close> comes first.
\<close>

definition recover :: "'a Command \<Rightarrow> 'a Argv \<Rightarrow> nat \<Rightarrow> exn \<Rightarrow> xstate \<Rightarrow> outcome \<times> event list" where
  "recover cmd argv length' e s =
     (if index s = length' then (Inl e, trace s) else by_policy cmd argv e (trace s))"

text \<open>
  \<^verbatim>\<open>execute\<close>. The result is the value the promise resolves to or the exception it
  rejects with, and the events of the execution.
\<close>

definition execute ::
  "nat \<Rightarrow> nat \<Rightarrow> 'a Command \<Rightarrow> 'a Argv \<Rightarrow> prog \<Rightarrow> (outcome \<times> event list) option" where
  "execute fuel max_depth cmd argv fallback =
     (if error argv \<noteq> [] then Some (Inr (Fragment (error argv)), [])
      else (case run_checkers (checkers cmd) argv 0 of
              (Some r, events) \<Rightarrow> Some (r, events)
            | (None, events) \<Rightarrow>
                if actions cmd = [] then Some (Inr (Fragment []), events)
                else
                  (let queue0 = map (\<lambda>action. action argv) (actions cmd) @ [fallback];
                       length' = length queue0
                   in case argv_next (run fuel max_depth) max_depth None
                             \<lparr>queue = queue0, index = 0, trace = events\<rparr> of
                        None \<Rightarrow> None
                      | Some (Inr result, s) \<Rightarrow> Some (Inr (or_empty result), trace s)
                      | Some (Inl e, s) \<Rightarrow> Some (recover cmd argv length' e s))))"

section \<open>Notions used to state the properties of \<^verbatim>\<open>execute\<close>\<close>

text \<open>
  The cursor positions from which \<^verbatim>\<open>next\<close> has moved on, in order, as the events
  record them.
\<close>

fun cursor :: "event \<Rightarrow> nat list" where
  "cursor (Invoke i) = [i]"
| "cursor (Idle i) = [i]"
| "cursor (Checker k) = []"
| "cursor (CommandError e) = []"

definition dispatches :: "event list \<Rightarrow> nat list" where
  "dispatches events = concat (map cursor events)"

text \<open>
  The cursor counts the moves recorded, the queue has at least \<open>n\<close> entries, and
  \<^verbatim>\<open>next\<close> found no continuation only at places from \<open>n\<close> on.
\<close>

definition cursor_ok :: "nat \<Rightarrow> xstate \<Rightarrow> bool" where
  "cursor_ok n s \<longleftrightarrow>
     dispatches (trace s) = [0..<index s] \<and> n \<le> length (queue s) \<and> (\<forall>i. Idle i \<in> set (trace s) \<longrightarrow> n \<le> i)"

text \<open>\<^verbatim>\<open>return await argv.next(...)\<close>: what the call gave is given back, value or exception.\<close>

definition pass_on :: "outcome \<Rightarrow> prog" where
  "pass_on r = (case r of Inl e \<Rightarrow> Throw e | Inr v \<Rightarrow> Return v)"

text \<open>The queue and the state that \<^verbatim>\<open>execute\<close> builds before its first \<^verbatim>\<open>argv.next()\<close>.\<close>

definition initial :: "'a Command \<Rightarrow> 'a Argv \<Rightarrow> prog \<Rightarrow> event list \<Rightarrow> xstate" where
  "initial cmd argv fallback events =
     \<lparr>queue = map (\<lambda>action. action argv) (actions cmd) @ [fallback], index = 0, trace = events\<rparr>"

section \<open>Concrete inputs\<close>

text \<open>A session with no user and no bot, on which every condition function is false.\<close>

definition session0 :: "unit session" where
  "session0 = \<lparr>user = None, bot = None, dynamic = (\<lambda>f. False)\<rparr>"

text \<open>
  The resolver of the example: a fresh one, then
  \<^verbatim>\<open>inherit("authority.3", "cmd.foo")\<close> and \<^verbatim>\<open>depend("cmd.bar", "cmd.foo")\<close>, both
  with the default condition \<^verbatim>\<open>true\<close>.
\<close>

definition foo_bar_permissions :: "(string \<Rightarrow> real option) \<Rightarrow> 'f Permissions" where
  "foo_bar_permissions to_number =
     depend ''cmd.bar'' ''cmd.foo'' (Static True)
       (inherit ''authority.3'' ''cmd.foo'' (Static True) (Permissions_new to_number))"

text \<open>Three providers for \<^verbatim>\<open>cmd.foo\<close>: one agrees, one refuses, one would throw.\<close>

definition three_providers :: "unit Permissions" where
  "three_providers =
     \<lparr>inherits = [], depends = [],
      providers = [(''cmd.*'', \<lambda>name session. Inr True),
                   (''cmd.f*'', \<lambda>name session. Inr False),
                   (''cmd.foo'', \<lambda>name session. Inl (Failure ''boom''))],
      emitted = 0\<rparr>"

text \<open>A provider that agrees, then one that throws.\<close>

definition throwing_providers :: "unit Permissions" where
  "throwing_providers =
     \<lparr>inherits = [], depends = [],
      providers = [(''cmd.*'', \<lambda>name session. Inr True),
                   (''cmd.foo'', \<lambda>name session. Inl (Failure ''boom''))],
      emitted = 0\<rparr>"

text \<open>Two providers for \<^verbatim>\<open>cmd.foo\<close> that agree.\<close>

definition agreeing_providers :: "unit Permissions" where
  "agreeing_providers =
     \<lparr>inherits = [], depends = [],
      providers = [(''cmd.*'', \<lambda>name session. Inr True),
                   (''cmd.foo'', \<lambda>name session. Inr True)],
      emitted = 0\<rparr>"

text \<open>An \<^verbatim>\<open>argv\<close> with no error, whose session renders a path as the path itself.\<close>

definition argv0 :: "unit Argv" where
  "argv0 = \<lparr>error = [], args = (), session_text = (\<lambda>path param. path)\<rparr>"

text \<open>A command with one passing checker and no action.\<close>

definition quiet_cmd :: "unit Command" where
  "quiet_cmd =
     \<lparr>ref = 1, cmd_name = ''quiet'', parent_name = None, aliases = [''quiet''],
      checkers = [\<lambda>argv. Inr Nullish], actions = [], handleError = Policy True\<rparr>"

text \<open>
  A command whose second checker answers; the third checker and the action would
  throw.
\<close>

definition guarded_cmd :: "unit Command" where
  "guarded_cmd =
     \<lparr>ref = 1, cmd_name = ''guarded'', parent_name = None, aliases = [''guarded''],
      checkers = [\<lambda>argv. Inr Nullish, \<lambda>argv. Inr (Fragment ''denied''), \<lambda>argv. Inl (Failure ''third checker'')],
      actions = [\<lambda>argv. Throw (Failure ''action'')], handleError = Policy True\<rparr>"

text \<open>
  The command that \<^verbatim>\<open>new Command('foo', ...)\<close> builds on an empty registry when the
  \<^verbatim>\<open>command/before-execute\<close> listeners answer \<^verbatim>\<open>default\<close>, and a checker of a caller
  that answers \<^verbatim>\<open>user\<close>.
\<close>

definition default_checker :: "unit Argv \<Rightarrow> outcome" where
  "default_checker argv = Inr (Fragment ''default'')"

definition user_checker :: "unit Argv \<Rightarrow> outcome" where
  "user_checker argv = Inr (Fragment ''user'')"

definition commander0 :: Commander where
  "commander0 = \<lparr>commands = Map.empty, commandList = []\<rparr>"

definition foo_cmd :: "unit Command" where
  "foo_cmd =
     \<lparr>ref = 1, cmd_name = ''foo'', parent_name = None, aliases = [''foo''],
      checkers = [default_checker], actions = [], handleError = Policy True\<rparr>"

text \<open>
  A registry with the commands \<^verbatim>\<open>a\<close> (object 1) and \<^verbatim>\<open>b\<close> (object 2), and the
  command \<^verbatim>\<open>b\<close> before and after a call \<^verbatim>\<open>alias('a')\<close> on it.
\<close>

definition commander_ab :: Commander where
  "commander_ab = \<lparr>commands = [''a'' \<mapsto> 1, ''b'' \<mapsto> 2], commandList = [1, 2]\<rparr>"

definition cmd_b :: "unit Command" where
  "cmd_b =
     \<lparr>ref = 2, cmd_name = ''b'', parent_name = None, aliases = [''b''],
      checkers = [], actions = [], handleError = Policy True\<rparr>"

definition cmd_b_after :: "unit Command" where
  "cmd_b_after = cmd_b\<lparr>aliases := [''b'', ''a'']\<rparr>"


definition passing_cmd :: "unit Command" where
  "passing_cmd =
     \<lparr>ref = 1, cmd_name = ''passing'', parent_name = None, aliases = [''passing''], checkers = [],
      actions = [\<lambda>argv. CallNext None pass_on],
      handleError = Policy True\<rparr>"


definition deep_cmd :: "unit Command" where
  "deep_cmd =
     \<lparr>ref = 1, cmd_name = ''deep'', parent_name = None, aliases = [''deep''], checkers = [],
      actions = (\<lambda>argv. CallNext (Some (CbFun (Return Nullish))) pass_on) # replicate 63 (\<lambda>argv. Return Nullish),
      handleError = Policy True\<rparr>"



text \<open>
  An action that calls \<^verbatim>\<open>next(cb)\<close> with a callback that does the same, 70 levels
  deep, and the command with this one action.
\<close>

fun spin :: "nat \<Rightarrow> prog" where
  "spin 0 = Return Nullish"
| "spin (Suc n) = CallNext (Some (CbFun (spin n))) pass_on"

definition runaway_cmd :: "unit Command" where
  "runaway_cmd =
     \<lparr>ref = 1, cmd_name = ''runaway'', parent_name = None, aliases = [''runaway''], checkers = [],
      actions = [\<lambda>argv. spin 70], handleError = Policy True\<rparr>"

section \<open>Properties of the permission graph\<close>

lemma map_of_map_set: "map_of (map_set k v m) = (map_of m)(k \<mapsto> v)"
  by (induction m) (auto simp: fun_eq_iff)

lemma fst_set_map_set: "fst ` set (map_set k v m) = insert k (fst ` set m)"
  by (induction m) auto

lemma distinct_map_set: "distinct (map fst m) \<Longrightarrow> distinct (map fst (map_set k v m))"
  by (induction m) (auto simp: fst_set_map_set)

lemma skipped_iff: "skipped session conditions \<longleftrightarrow> \<not> (\<exists>value \<in> set conditions. resolve session value)"
  by (simp add: skipped_def list_all_iff)

lemma pushed_iff:
  "key \<in> set (pushed session m) \<longleftrightarrow>
     (\<exists>conditions. (key, conditions) \<in> set m \<and> (\<exists>value \<in> set conditions. resolve session value))"
  by (force simp: pushed_def skipped_iff)

lemma pushed_distinct_iff:
  assumes "distinct (map fst m)" and "map_of m key = Some conditions"
  shows "key \<in> set (pushed session m) \<longleftrightarrow> (\<exists>value \<in> set conditions. resolve session value)"
proof -
  have "(key, cs) \<in> set m \<longleftrightarrow> cs = conditions" for cs
    using map_of_eq_Some_iff [OF assms(1), of key cs] assms(2) by auto
  then show ?thesis by (simp add: pushed_iff)
qed

lemma outgoing_unlink:
  "map_of (outgoing store source) target = Some list \<Longrightarrow>
     outgoing (unlink source target condition store) source
       = map_set target (remove1 condition list) (outgoing store source)"
  by (auto simp: outgoing_def unlink_def map_of_map_set split: option.splits)

lemma outgoing_link:
  "outgoing (link source target condition store) source
     = map_set target ((case map_of (outgoing store source) target of None \<Rightarrow> [] | Some list \<Rightarrow> list) @ [condition])
         (outgoing store source)"
  by (auto simp: outgoing_def link_def map_of_map_set Let_def split: option.splits)

lemma unlink_last:
  assumes "distinct (map fst (outgoing store source))"
    and "map_of (outgoing store source) target = Some [condition]"
  shows "map_of (outgoing (unlink source target condition store) source) target = Some []"
    and "target \<notin> set (pushed session (outgoing (unlink source target condition store) source))"
    and "target \<in> set (pushed session (outgoing (link source target c (unlink source target condition store)) source))
          \<longleftrightarrow> resolve session c"
proof -
  let ?s1 = "unlink source target condition store"
  have o1: "outgoing ?s1 source = map_set target [] (outgoing store source)"
    using outgoing_unlink [OF assms(2)] by simp
  show m1: "map_of (outgoing ?s1 source) target = Some []"
    by (simp add: o1 map_of_map_set)
  have d1: "distinct (map fst (outgoing ?s1 source))"
    by (simp add: o1 distinct_map_set assms(1))
  show "target \<notin> set (pushed session (outgoing ?s1 source))"
    using pushed_distinct_iff [OF d1 m1] by simp
  have o2: "outgoing (link source target c ?s1) source = map_set target [c] (outgoing ?s1 source)"
    by (simp add: outgoing_link m1)
  have "distinct (map fst (outgoing (link source target c ?s1) source))"
    by (simp add: o2 distinct_map_set d1)
  moreover have "map_of (outgoing (link source target c ?s1) source) target = Some [c]"
    by (simp add: o2 map_of_map_set)
  ultimately show "target \<in> set (pushed session (outgoing (link source target c ?s1) source))
          \<longleftrightarrow> resolve session c"
    using pushed_distinct_iff by fastforce
qed

lemma subgraph_loop_expand:
  "node \<noteq> [] \<Longrightarrow> node \<notin> set result \<Longrightarrow>
     subgraph_loop store session (node # rest) result
       = subgraph_loop store session (rest @ pushed session (outgoing store node)) (result @ [node])"
  by (simp add: outgoing_def pushed_def split: option.splits)

lemma subgraph_single_edge:
  "source \<noteq> [] \<Longrightarrow> target \<noteq> [] \<Longrightarrow> source \<noteq> target \<Longrightarrow>
     target \<in> set (subgraph [source] session [(source, [(target, conditions)])])
       \<longleftrightarrow> (\<exists>value \<in> set conditions. resolve session value)"
  by (simp add: subgraph_def pushed_def skipped_iff)

section \<open>Properties of \<^verbatim>\<open>subgraph\<close>: start nodes and reachable nodes\<close>

lemma pushed_outgoing_targets: "set (pushed session (outgoing store node)) \<subseteq> targets store"
proof (cases "map_of store node")
  case None
  then show ?thesis by (simp add: outgoing_def pushed_def)
next
  case (Some m)
  then show ?thesis using pushed_targets [OF Some] by (simp add: outgoing_def)
qed

lemma subgraph_loop_closed:
  assumes "[] \<notin> set todo" and "[] \<notin> targets store" and "distinct result"
    and "\<forall>u \<in> set result. set (pushed session (outgoing store u)) \<subseteq> set result \<union> set todo"
  shows "distinct (subgraph_loop store session todo result)
     \<and> set result \<union> set todo \<subseteq> set (subgraph_loop store session todo result)
     \<and> (\<forall>u \<in> set (subgraph_loop store session todo result).
           set (pushed session (outgoing store u)) \<subseteq> set (subgraph_loop store session todo result))"
  using assms
proof (induction store session todo result rule: subgraph_loop.induct)
  case (1 store session result)
  then show ?case by simp
next
  case (2 store session node rest result)
  have ne: "node \<noteq> []" using "2.prems"(1) by auto
  show ?case
  proof (cases "node \<in> set result")
    case True
    have "distinct (subgraph_loop store session rest result)
     \<and> set result \<union> set rest \<subseteq> set (subgraph_loop store session rest result)
     \<and> (\<forall>u \<in> set (subgraph_loop store session rest result).
           set (pushed session (outgoing store u)) \<subseteq> set (subgraph_loop store session rest result))"
      using "2.IH"(1) [OF ne True] "2.prems" True by auto
    then show ?thesis using ne True by auto
  next
    case False
    let ?todo = "rest @ pushed session (outgoing store node)"
    have step: "subgraph_loop store session (node # rest) result
        = subgraph_loop store session ?todo (result @ [node])"
      by (rule subgraph_loop_expand [OF ne False])
    have p1: "[] \<notin> set ?todo"
      using "2.prems"(1,2) pushed_outgoing_targets [of session store node] by auto
    have p3: "distinct (result @ [node])" using "2.prems"(3) False by simp
    have p4: "\<forall>u \<in> set (result @ [node]). set (pushed session (outgoing store u)) \<subseteq> set (result @ [node]) \<union> set ?todo"
      using "2.prems"(4) by auto
    have ih: "distinct (subgraph_loop store session ?todo (result @ [node]))
     \<and> set (result @ [node]) \<union> set ?todo \<subseteq> set (subgraph_loop store session ?todo (result @ [node]))
     \<and> (\<forall>u \<in> set (subgraph_loop store session ?todo (result @ [node])).
           set (pushed session (outgoing store u)) \<subseteq> set (subgraph_loop store session ?todo (result @ [node])))"
    proof (cases "map_of store node")
      case None
      then have o: "outgoing store node = []" by (simp add: outgoing_def)
      have "pushed session [] = []" by (simp add: pushed_def)
      then show ?thesis
        using "2.IH"(2) [OF ne False None] p1 "2.prems"(2) p3 p4 o by simp
    next
      case (Some m)
      then have o: "outgoing store node = m" by (simp add: outgoing_def)
      show ?thesis
        using "2.IH"(3) [OF ne False Some] p1 "2.prems"(2) p3 p4 o by simp
    qed
    show ?thesis unfolding step using ih by auto
  qed
qed

lemma traversable_pushed:
  "(u, v) \<in> traversable store session \<longleftrightarrow> v \<in> set (pushed session (outgoing store u))"
proof (cases "map_of store u")
  case None
  then show ?thesis by (simp add: traversable_def outgoing_def pushed_def)
next
  case (Some m)
  then show ?thesis by (simp add: traversable_def outgoing_def pushed_iff)
qed

text \<open>
  When the empty string is neither a start node nor a target of an edge, the result of
  \<^verbatim>\<open>subgraph\<close> contains the start nodes, has no node twice and contains every node
  that can be reached from a start node over edges that can be traversed. The loop
  ends on every graph: \<open>subgraph_loop\<close> is a total function.
\<close>

lemma subgraph_nonempty_nodes:
  assumes "[] \<notin> set parents" and "[] \<notin> targets store"
  shows "set parents \<subseteq> set (subgraph parents session store)"
    and "distinct (subgraph parents session store)"
    and "p \<in> set parents \<Longrightarrow> (p, v) \<in> (traversable store session)\<^sup>* \<Longrightarrow> v \<in> set (subgraph parents session store)"
proof -
  have c: "distinct (subgraph parents session store)
     \<and> set parents \<subseteq> set (subgraph parents session store)
     \<and> (\<forall>u \<in> set (subgraph parents session store).
           set (pushed session (outgoing store u)) \<subseteq> set (subgraph parents session store))"
    using subgraph_loop_closed [of parents store "[]" session] assms by (simp add: subgraph_def)
  show "set parents \<subseteq> set (subgraph parents session store)" using c by blast
  show "distinct (subgraph parents session store)" using c by blast
  show "v \<in> set (subgraph parents session store)"
    if "p \<in> set parents" and "(p, v) \<in> (traversable store session)\<^sup>*"
    using that(2)
  proof (induction rule: rtrancl_induct)
    case base
    then show ?case using c that(1) by blast
  next
    case (step y z)
    then show ?case using c by (auto simp: traversable_pushed)
  qed
qed

lemma subgraph_loop_sound:
  assumes "set todo \<subseteq> R" and "set result \<subseteq> R"
    and "\<forall>u \<in> R. set (pushed session (outgoing store u)) \<subseteq> R"
  shows "set (subgraph_loop store session todo result) \<subseteq> R"
  using assms
proof (induction store session todo result rule: subgraph_loop.induct)
  case (1 store session result)
  then show ?case by simp
next
  case (2 store session node rest result)
  show ?case
  proof (cases "node = []")
    case True
    then show ?thesis using "2.prems"(2) by simp
  next
    case ne: False
    show ?thesis
    proof (cases "node \<in> set result")
      case True
      then show ?thesis using "2.IH"(1) [OF ne True] "2.prems" ne by simp
    next
      case False
      have node: "node \<in> R" using "2.prems"(1) by simp
      have step: "subgraph_loop store session (node # rest) result
          = subgraph_loop store session (rest @ pushed session (outgoing store node)) (result @ [node])"
        by (rule subgraph_loop_expand [OF ne False])
      have t: "set (rest @ pushed session (outgoing store node)) \<subseteq> R"
        using "2.prems"(1,3) node by auto
      have r: "set (result @ [node]) \<subseteq> R" using "2.prems"(2) node by simp
      have "set (subgraph_loop store session (rest @ pushed session (outgoing store node)) (result @ [node])) \<subseteq> R"
      proof (cases "map_of store node")
        case None
        then have o: "outgoing store node = []" by (simp add: outgoing_def)
        have "pushed session [] = []" by (simp add: pushed_def)
        then show ?thesis using "2.IH"(2) [OF ne False None] t r "2.prems"(3) o by simp
      next
        case (Some m)
        then have o: "outgoing store node = m" by (simp add: outgoing_def)
        show ?thesis using "2.IH"(3) [OF ne False Some] t r "2.prems"(3) o by simp
      qed
      then show ?thesis unfolding step .
    qed
  qed
qed

text \<open>
  On every graph the nodes visited can be reached from a start node over edges that
  have at least one condition resolving to true. When the empty string is neither a
  start node nor a target, the nodes visited are exactly those nodes. An edge left
  with no condition by \<^verbatim>\<open>unlink\<close> is not such an edge; after a condition is linked to
  it again, it is one exactly when that condition resolves to true.
\<close>

lemma subgraph_only_reachable:
  "set (subgraph parents session store) \<subseteq> (traversable store session)\<^sup>* `` set parents"
proof -
  have "\<forall>u \<in> (traversable store session)\<^sup>* `` set parents.
      set (pushed session (outgoing store u)) \<subseteq> (traversable store session)\<^sup>* `` set parents"
  proof (intro ballI subsetI)
    fix u v
    assume "u \<in> (traversable store session)\<^sup>* `` set parents"
      and "v \<in> set (pushed session (outgoing store u))"
    then obtain p where "p \<in> set parents" "(p, u) \<in> (traversable store session)\<^sup>*"
      "(u, v) \<in> traversable store session"
      by (auto simp: traversable_pushed)
    then have "(p, v) \<in> (traversable store session)\<^sup>*" by (meson rtrancl_into_rtrancl)
    then show "v \<in> (traversable store session)\<^sup>* `` set parents"
      using \<open>p \<in> set parents\<close> by blast
  qed
  moreover have "set parents \<subseteq> (traversable store session)\<^sup>* `` set parents" by auto
  ultimately show ?thesis
    unfolding subgraph_def by (intro subgraph_loop_sound) auto
qed

lemma subgraph_exact:
  assumes "[] \<notin> set parents" and "[] \<notin> targets store"
  shows "set (subgraph parents session store) = (traversable store session)\<^sup>* `` set parents"
proof
  show "set (subgraph parents session store) \<subseteq> (traversable store session)\<^sup>* `` set parents"
    by (rule subgraph_only_reachable)
  show "(traversable store session)\<^sup>* `` set parents \<subseteq> set (subgraph parents session store)"
    using subgraph_nonempty_nodes(3) [OF assms] by auto
qed

lemma traversable_iff:
  assumes "distinct (map fst (outgoing store source))"
    and "map_of (outgoing store source) target = Some conditions"
  shows "(source, target) \<in> traversable store session \<longleftrightarrow> (\<exists>value \<in> set conditions. resolve session value)"
  using pushed_distinct_iff [OF assms] by (simp add: traversable_pushed)

lemma unlink_last_not_traversable:
  assumes "distinct (map fst (outgoing store source))"
    and "map_of (outgoing store source) target = Some [condition]"
  shows "(source, target) \<notin> traversable (unlink source target condition store) session"
    and "(source, target) \<in> traversable (link source target c (unlink source target condition store)) session
           \<longleftrightarrow> resolve session c"
  using unlink_last(2,3) [OF assms] by (simp_all add: traversable_pushed)

text \<open>
  On a chain the edge that leaves a node other than the start node is followed too, and
  the edge with only a false condition is not.
\<close>

lemma chain_example:
  "subgraph [''a''] session [(''a'', [(''b'', [Static True])]), (''b'', [(''c'', [Static False, Static True]), (''d'', [Static False])])]
     = [''a'', ''b'', ''c'']"
  by (simp add: subgraph_def pushed_def skipped_def)

text \<open>
  C4. An edge with a condition that resolves to true is not traversed when it leaves
  the empty string: the loop \<^verbatim>\<open>while ((node = queue.shift()))\<close> ends when it takes the
  empty string from the queue, the start node is not expanded and the target is not
  visited. An edge from \<^verbatim>\<open>a\<close> to \<^verbatim>\<open>b\<close> with one false and one true condition is
  put on the queue, but behind an edge from \<^verbatim>\<open>a\<close> to the empty string its target is
  never visited.
\<close>

theorem edge_beside_empty_string:
  "('''', ''t'') \<in> traversable [('''', [(''t'', [Static True])])] session
   \<and> subgraph [''''] session [('''', [(''t'', [Static True])])] = []
   \<and> (''a'', ''b'') \<in> traversable [(''a'', [('''', [Static True]), (''b'', [Static False, Static True])])] session
   \<and> subgraph [''a''] session [(''a'', [('''', [Static True]), (''b'', [Static False, Static True])])] = [''a'']"
  by (simp add: traversable_def subgraph_def pushed_def skipped_def)

text \<open>
  C5. The loop \<^verbatim>\<open>while ((node = queue.shift()))\<close> stops at an empty string as it stops
  at the end of the queue. With the empty string first among the start nodes the
  result is empty; after it no start node is visited; and when it is the target of an
  edge, the nodes queued after it are not visited although an edge with a true
  condition leads to them.
\<close>

theorem subgraph_empty_string:
  "subgraph ('''' # parents) session store = []
   \<and> subgraph [''a'', '''', ''b''] session store = [''a'']
   \<and> subgraph [''a''] session [(''a'', [('''', [Static True]), (''b'', [Static True])])] = [''a'']"
  by (simp add: subgraph_def pushed_def skipped_def split: option.splits)

section \<open>Properties of \<^verbatim>\<open>test\<close> and \<^verbatim>\<open>check\<close>\<close>

text \<open>The keys of the built-in providers are no array indices.\<close>

lemma array_index_authority: "array_index ''authority.*'' = None"
  by (simp add: array_index_def digit_def)

lemma array_index_bot: "array_index ''bot.*'' = None"
  by (simp add: array_index_def digit_def)

text \<open>
  The entries of a fresh resolver; with a provider for the key \<^verbatim>\<open>7\<close> added, that key
  is listed first.
\<close>

lemma Permissions_new_providers:
  "providers (Permissions_new to_number)
     = [(''authority.*'', authority_provider to_number), (''bot.*'', bot_provider)]"
  by (simp add: Permissions_new_def provide_def object_set_def array_index_authority array_index_bot)

lemma provide_array_index_first:
  "map fst (providers (provide ''7'' callback (Permissions_new to_number))) = [''7'', ''authority.*'', ''bot.*'']"
  by (simp add: Permissions_new_providers provide_def object_set_def array_index_def digit_def decimal_def)

lemmas perm_defs = test_def depend_def inherit_def inherit_dispose_def Permissions_new_def provide_def
  object_set_def array_index_authority array_index_bot
  link_def unlink_def subgraph_def pushed_def skipped_def check_def check_try_def matching_def
  matches_def endsWith_star_def startsWith_def

text \<open>
  C1. On a fresh resolver with \<^verbatim>\<open>inherit("authority.3", "cmd.foo")\<close> and
  \<^verbatim>\<open>depend("cmd.bar", "cmd.foo")\<close>, for every session:
  \<^verbatim>\<open>test(["authority.3"], ["cmd.bar"])\<close> is false, because \<^verbatim>\<open>cmd.bar\<close> itself is in
  the dependency subgraph and is neither held nor granted by a provider. When
  \<^verbatim>\<open>cmd.bar\<close> is held too the test is true, and false once the inherit edge is removed;
  the same holds for the requirement \<^verbatim>\<open>cmd.foo\<close> with \<^verbatim>\<open>authority.3\<close> alone.
\<close>

theorem test_foo_bar:
  "test [''authority.3''] [''cmd.bar''] session (foo_bar_permissions to_number) = False
   \<and> test [''authority.3'', ''cmd.bar''] [''cmd.bar''] session (foo_bar_permissions to_number) = True
   \<and> test [''authority.3'', ''cmd.bar''] [''cmd.bar''] session
         (inherit_dispose ''authority.3'' ''cmd.foo'' (Static True) (foo_bar_permissions to_number)) = False
   \<and> test [''authority.3''] [''cmd.foo''] session (foo_bar_permissions to_number) = True
   \<and> test [''authority.3''] [''cmd.foo''] session
         (inherit_dispose ''authority.3'' ''cmd.foo'' (Static True) (foo_bar_permissions to_number)) = False"
  by (simp add: perm_defs foo_bar_permissions_def)

text \<open>
  The call of the example as it is written, \<^verbatim>\<open>test(["authority.3"], ["cmd.bar"])\<close> with
  the inherit edge in place, does not return true.
\<close>

theorem test_foo_bar_counterexample:
  "\<not> test [''authority.3''] [''cmd.bar''] session0 (foo_bar_permissions (\<lambda>s. None))"
  by (simp add: perm_defs foo_bar_permissions_def)

lemma check_loop_answer:
  "fst (check_loop cbs name session) = Inr True \<longleftrightarrow> (\<forall>(key, callback) \<in> set cbs. callback name session = Inr True)"
  by (induction cbs) (auto split: sum.splits prod.splits)

lemma check_loop_invoked:
  "snd (check_loop cbs name session)
     = map fst (take (Suc (length (takeWhile (\<lambda>(key, callback). callback name session = Inr True) cbs))) cbs)"
  by (induction cbs) (auto simp: case_prod_beta split: sum.splits)

lemma check_answer:
  "answer (check perms name session) \<longleftrightarrow>
     matching (providers perms) name \<noteq> []
     \<and> (\<forall>(key, callback) \<in> set (matching (providers perms) name). callback name session = Inr True)"
proof (cases "matching (providers perms) name = []")
  case True
  then show ?thesis by (simp add: check_def check_try_def)
next
  case False
  obtain r keys where r: "check_loop (matching (providers perms) name) name session = (r, keys)"
    by (cases "check_loop (matching (providers perms) name) name session")
  have "answer (check perms name session) \<longleftrightarrow> r = Inr True"
    using False r by (cases r) (auto simp: check_def check_try_def)
  then show ?thesis
    using False check_loop_answer [of "matching (providers perms) name" name session] r by simp
qed

lemma check_invoked:
  "invoked (check perms name session)
     = map fst (take (Suc (length (takeWhile (\<lambda>(key, callback). callback name session = Inr True)
                                     (matching (providers perms) name))))
                  (matching (providers perms) name))"
proof (cases "matching (providers perms) name = []")
  case True
  then show ?thesis by (simp add: check_def check_try_def)
next
  case False
  obtain r keys where r: "check_loop (matching (providers perms) name) name session = (r, keys)"
    by (cases "check_loop (matching (providers perms) name) name session")
  have "invoked (check perms name session) = keys"
    using False r by (cases r) (auto simp: check_def check_try_def)
  then show ?thesis
    using check_loop_invoked [of "matching (providers perms) name" name session] r by simp
qed

lemma check_warned:
  "fst (check_try (providers perms) name session) = Inl e \<Longrightarrow>
     answer (check perms name session) = False \<and> warned (check perms name session) = [e]"
  by (cases "check_try (providers perms) name session") (auto simp: check_def)

lemma matches_iff:
  "matches name key \<longleftrightarrow> name = key \<or> (\<exists>p s. key = p @ ''*'' \<and> name = p @ s)"
proof -
  have "endsWith_star key \<longleftrightarrow> (\<exists>p. key = p @ ''*'')"
    by (cases key rule: rev_cases) (auto simp: endsWith_star_def)
  moreover have "startsWith name p \<longleftrightarrow> (\<exists>s. name = p @ s)" for p
    by (metis startsWith_def append_eq_conv_conj append_take_drop_id)
  ultimately show ?thesis
    by (auto simp: matches_def)
qed

text \<open>
  What \<^verbatim>\<open>check\<close> does in terms of its inputs: the loop on a list whose first callback
  that does not return true throws, or returns false, or is missing.
\<close>

lemma check_loop_throw:
  assumes "\<forall>(k, cb) \<in> set pre. cb name session = Inr True" and "callback name session = Inl e"
  shows "check_loop (pre @ (key, callback) # post) name session = (Inl e, map fst pre @ [key])"
  using assms by (induction pre) (auto simp: case_prod_beta)

lemma check_loop_false:
  assumes "\<forall>(k, cb) \<in> set pre. cb name session = Inr True" and "callback name session = Inr False"
  shows "check_loop (pre @ (key, callback) # post) name session = (Inr False, map fst pre @ [key])"
  using assms by (induction pre) (auto simp: case_prod_beta)

lemma check_loop_all_true:
  assumes "\<forall>(k, cb) \<in> set cbs. cb name session = Inr True"
  shows "check_loop cbs name session = (Inr True, map fst cbs)"
  using assms by (induction cbs) (auto simp: case_prod_beta)

lemma check_called_throws:
  assumes "matching (providers perms) name = pre @ (key, callback) # post"
    and "\<forall>(k, cb) \<in> set pre. cb name session = Inr True" and "callback name session = Inl e"
  shows "check perms name session = \<lparr>answer = False, invoked = map fst pre @ [key], warned = [e]\<rparr>"
  using check_loop_throw [where pre = pre and name = name and session = session and callback = callback
      and e = e and key = key and post = post] assms
  by (simp add: check_def check_try_def)

lemma check_called_false:
  assumes "matching (providers perms) name = pre @ (key, callback) # post"
    and "\<forall>(k, cb) \<in> set pre. cb name session = Inr True" and "callback name session = Inr False"
  shows "check perms name session = \<lparr>answer = False, invoked = map fst pre @ [key], warned = []\<rparr>"
  using check_loop_false [where pre = pre and name = name and session = session and callback = callback
      and key = key and post = post] assms
  by (simp add: check_def check_try_def)

lemma check_all_true:
  assumes "matching (providers perms) name \<noteq> []"
    and "\<forall>(k, cb) \<in> set (matching (providers perms) name). cb name session = Inr True"
  shows "check perms name session
           = \<lparr>answer = True, invoked = map fst (matching (providers perms) name), warned = []\<rparr>"
  using check_loop_all_true [OF assms(2)] assms(1) by (simp add: check_def check_try_def)

lemma check_no_match:
  assumes "matching (providers perms) name = []"
  shows "check perms name session = \<lparr>answer = False, invoked = [], warned = []\<rparr>"
  using assms by (simp add: check_def check_try_def)

lemma check_equation:
  "check perms name session =
     (case dropWhile (\<lambda>(k, cb). cb name session = Inr True) (matching (providers perms) name) of
        [] \<Rightarrow>
          \<lparr>answer = (matching (providers perms) name \<noteq> []),
           invoked = map fst (matching (providers perms) name), warned = []\<rparr>
      | (key, callback) # post \<Rightarrow>
          \<lparr>answer = False,
           invoked = map fst (takeWhile (\<lambda>(k, cb). cb name session = Inr True)
                               (matching (providers perms) name)) @ [key],
           warned = (case callback name session of Inl e \<Rightarrow> [e] | Inr b \<Rightarrow> [])\<rparr>)"
proof -
  let ?P = "\<lambda>(k, cb). cb name session = Inr True"
  let ?ms = "matching (providers perms) name"
  show ?thesis
  proof (cases "dropWhile ?P ?ms")
    case Nil
    then have all: "\<forall>(k, cb) \<in> set ?ms. cb name session = Inr True"
      by (auto simp: dropWhile_eq_Nil_conv)
    show ?thesis
    proof (cases "?ms = []")
      case True
      show ?thesis by (subst Nil) (simp add: check_no_match [OF True] True)
    next
      case False
      show ?thesis by (subst Nil) (simp add: check_all_true [OF False all] False)
    qed
  next
    case (Cons a post)
    obtain key callback where a: "a = (key, callback)" by (cases a)
    have split: "?ms = takeWhile ?P ?ms @ (key, callback) # post"
      using takeWhile_dropWhile_id [of ?P ?ms] Cons a by simp
    have pre: "\<forall>(k, cb) \<in> set (takeWhile ?P ?ms). cb name session = Inr True"
      using set_takeWhileD [of _ ?P ?ms] by fastforce
    have "\<not> ?P (hd (dropWhile ?P ?ms))"
      using hd_dropWhile [of ?P ?ms] Cons by simp
    then have nt: "callback name session \<noteq> Inr True"
      using Cons a by simp
    show ?thesis
    proof (cases "callback name session")
      case (Inl e)
      show ?thesis by (subst Cons) (simp add: check_called_throws [OF split pre Inl] a Inl)
    next
      case (Inr b)
      then have f: "callback name session = Inr False" using nt by simp
      show ?thesis by (subst Cons) (simp add: check_called_false [OF split pre f] a f)
    qed
  qed
qed

text \<open>
  C8. \<^verbatim>\<open>check\<close> answers false when no provider matches the name, where a key matches
  when it is the name or ends in \<^verbatim>\<open>*\<close> after a prefix of the name. The matching
  callbacks are called in order up to the first that does not return true. When that
  callback throws, the answer is false and the error it threw is the one given to
  \<^verbatim>\<open>logger.warn\<close>; when it returns false, the answer is false and nothing is logged;
  when every matching callback returns true, all of them are called, the answer is
  true and nothing is logged. So the answer is false whenever a matching callback
  throws, every outcome of the \<^verbatim>\<open>try\<close> block becomes a boolean answer, and the answer is
  true exactly when there is a matching callback and all of them return true.
\<close>

theorem check_closed_world:
  "(matching (providers perms) name = [] \<longrightarrow>
      answer (check perms name session) = False \<and> invoked (check perms name session) = [])
   \<and> ((key, callback) \<in> set (matching (providers perms) name) \<longleftrightarrow>
        (key, callback) \<in> set (providers perms) \<and> (name = key \<or> (\<exists>p s. key = p @ ''*'' \<and> name = p @ s)))
   \<and> ((\<exists>(key, callback) \<in> set (matching (providers perms) name). \<exists>e. callback name session = Inl e) \<longrightarrow>
        answer (check perms name session) = False)
   \<and> (fst (check_try (providers perms) name session) = Inl e \<longrightarrow>
        answer (check perms name session) = False \<and> warned (check perms name session) = [e])
   \<and> invoked (check perms name session)
        = map fst (take (Suc (length (takeWhile (\<lambda>(key, callback). callback name session = Inr True)
                                        (matching (providers perms) name))))
                     (matching (providers perms) name))
   \<and> (answer (check perms name session) \<longleftrightarrow>
        matching (providers perms) name \<noteq> []
        \<and> (\<forall>(key, callback) \<in> set (matching (providers perms) name). callback name session = Inr True))
   \<and> (matching (providers perms) name = pre @ (k0, cb0) # post
        \<and> (\<forall>(k, cb) \<in> set pre. cb name session = Inr True) \<and> cb0 name session = Inl err \<longrightarrow>
        check perms name session = \<lparr>answer = False, invoked = map fst pre @ [k0], warned = [err]\<rparr>)
   \<and> (matching (providers perms) name = pre @ (k0, cb0) # post
        \<and> (\<forall>(k, cb) \<in> set pre. cb name session = Inr True) \<and> cb0 name session = Inr False \<longrightarrow>
        check perms name session = \<lparr>answer = False, invoked = map fst pre @ [k0], warned = []\<rparr>)
   \<and> (matching (providers perms) name \<noteq> []
        \<and> (\<forall>(k, cb) \<in> set (matching (providers perms) name). cb name session = Inr True) \<longrightarrow>
        check perms name session
          = \<lparr>answer = True, invoked = map fst (matching (providers perms) name), warned = []\<rparr>)
   \<and> check perms name session =
       (case dropWhile (\<lambda>(k, cb). cb name session = Inr True) (matching (providers perms) name) of
          [] \<Rightarrow>
            \<lparr>answer = (matching (providers perms) name \<noteq> []),
             invoked = map fst (matching (providers perms) name), warned = []\<rparr>
        | (k1, cb1) # rest \<Rightarrow>
            \<lparr>answer = False,
             invoked = map fst (takeWhile (\<lambda>(k, cb). cb name session = Inr True)
                                 (matching (providers perms) name)) @ [k1],
             warned = (case cb1 name session of Inl e1 \<Rightarrow> [e1] | Inr b \<Rightarrow> [])\<rparr>)"
proof (intro conjI)
  show "matching (providers perms) name = [] \<longrightarrow>
      answer (check perms name session) = False \<and> invoked (check perms name session) = []"
    by (simp add: check_def check_try_def)
  show "(key, callback) \<in> set (matching (providers perms) name) \<longleftrightarrow>
        (key, callback) \<in> set (providers perms) \<and> (name = key \<or> (\<exists>p s. key = p @ ''*'' \<and> name = p @ s))"
    using matches_iff [of name key] by (auto simp: matching_def)
  show "(\<exists>(key, callback) \<in> set (matching (providers perms) name). \<exists>e. callback name session = Inl e) \<longrightarrow>
        answer (check perms name session) = False"
    using check_answer [of perms name session] by fastforce
  show "fst (check_try (providers perms) name session) = Inl e \<longrightarrow>
        answer (check perms name session) = False \<and> warned (check perms name session) = [e]"
    using check_warned [of perms name session e] by blast
  show "invoked (check perms name session)
        = map fst (take (Suc (length (takeWhile (\<lambda>(key, callback). callback name session = Inr True)
                                        (matching (providers perms) name))))
                     (matching (providers perms) name))"
    by (rule check_invoked)
  show "answer (check perms name session) \<longleftrightarrow>
        matching (providers perms) name \<noteq> []
        \<and> (\<forall>(key, callback) \<in> set (matching (providers perms) name). callback name session = Inr True)"
    by (rule check_answer)
  show "matching (providers perms) name = pre @ (k0, cb0) # post
        \<and> (\<forall>(k, cb) \<in> set pre. cb name session = Inr True) \<and> cb0 name session = Inl err \<longrightarrow>
        check perms name session = \<lparr>answer = False, invoked = map fst pre @ [k0], warned = [err]\<rparr>"
    using check_called_throws [of perms name pre k0 cb0 post session err] by blast
  show "matching (providers perms) name = pre @ (k0, cb0) # post
        \<and> (\<forall>(k, cb) \<in> set pre. cb name session = Inr True) \<and> cb0 name session = Inr False \<longrightarrow>
        check perms name session = \<lparr>answer = False, invoked = map fst pre @ [k0], warned = []\<rparr>"
    using check_called_false [of perms name pre k0 cb0 post session] by blast
  show "matching (providers perms) name \<noteq> []
        \<and> (\<forall>(k, cb) \<in> set (matching (providers perms) name). cb name session = Inr True) \<longrightarrow>
        check perms name session
          = \<lparr>answer = True, invoked = map fst (matching (providers perms) name), warned = []\<rparr>"
    using check_all_true [of perms name session] by blast
  show "check perms name session =
       (case dropWhile (\<lambda>(k, cb). cb name session = Inr True) (matching (providers perms) name) of
          [] \<Rightarrow>
            \<lparr>answer = (matching (providers perms) name \<noteq> []),
             invoked = map fst (matching (providers perms) name), warned = []\<rparr>
        | (k1, cb1) # rest \<Rightarrow>
            \<lparr>answer = False,
             invoked = map fst (takeWhile (\<lambda>(k, cb). cb name session = Inr True)
                                 (matching (providers perms) name)) @ [k1],
             warned = (case cb1 name session of Inl e1 \<Rightarrow> [e1] | Inr b \<Rightarrow> [])\<rparr>)"
    by (rule check_equation)
qed

theorem check_closed_world_witness:
  "check (Permissions_new (\<lambda>s. None)) ''cmd.foo'' session0
        = \<lparr>answer = False, invoked = [], warned = []\<rparr>
   \<and> check three_providers ''cmd.foo'' session0
        = \<lparr>answer = False, invoked = [''cmd.*'', ''cmd.f*''], warned = []\<rparr>
   \<and> check throwing_providers ''cmd.foo'' session0
        = \<lparr>answer = False, invoked = [''cmd.*'', ''cmd.foo''], warned = [Failure ''boom'']\<rparr>
   \<and> check agreeing_providers ''cmd.foo'' session0
        = \<lparr>answer = True, invoked = [''cmd.*'', ''cmd.foo''], warned = []\<rparr>"
  using
    check_closed_world [where perms = "Permissions_new (\<lambda>s. None)" and name = "''cmd.foo''"
      and session = session0]
    check_closed_world [where perms = three_providers and name = "''cmd.foo''" and session = session0
      and pre = "[(''cmd.*'', \<lambda>name session. Inr True)]" and ?k0.0 = "''cmd.f*''"
      and ?cb0.0 = "\<lambda>name session. Inr False"
      and post = "[(''cmd.foo'', \<lambda>name session. Inl (Failure ''boom''))]"
      and key = "''cmd.f*''" and callback = "\<lambda>name session. Inr False"]
    check_closed_world [where perms = throwing_providers and name = "''cmd.foo''" and session = session0
      and pre = "[(''cmd.*'', \<lambda>name session. Inr True)]" and ?k0.0 = "''cmd.foo''"
      and ?cb0.0 = "\<lambda>name session. Inl (Failure ''boom'')" and post = "[]"
      and err = "Failure ''boom''" and e = "Failure ''boom''"]
    check_closed_world [where perms = agreeing_providers and name = "''cmd.foo''" and session = session0]
  by (simp add: perm_defs three_providers_def throwing_providers_def agreeing_providers_def)

section \<open>Properties of the checkers and of the alias registry\<close>

lemma upt_head: "[k..<Suc (k + n)] = k # [Suc k..<Suc (k + n)]"
  by (rule upt_conv_Cons) simp

lemma run_checkers_pass:
  "\<forall>c \<in> set cs. c argv = Inr Nullish \<Longrightarrow> run_checkers cs argv k = (None, map Checker [k..<k + length cs])"
proof (induction cs arbitrary: k)
  case Nil
  then show ?case by simp
next
  case (Cons c cs)
  then have "run_checkers cs argv (Suc k) = (None, map Checker [Suc k..<Suc k + length cs])"
    by simp
  then show ?case using Cons.prems upt_head [of k "length cs"] by simp
qed

lemma run_checkers_stop:
  assumes "\<forall>c' \<in> set cs1. c' argv = Inr Nullish" and "c argv = Inr (Fragment v)"
  shows "run_checkers (cs1 @ c # cs2) argv k = (Some (Inr (Fragment v)), map Checker [k..<Suc (k + length cs1)])"
  using assms(1)
proof (induction cs1 arbitrary: k)
  case Nil
  then show ?case using assms(2) by simp
next
  case (Cons a cs1)
  then have "run_checkers (cs1 @ c # cs2) argv (Suc k)
      = (Some (Inr (Fragment v)), map Checker [Suc k..<Suc (Suc k + length cs1)])"
    by simp
  then show ?case using Cons.prems upt_head [of k "Suc (length cs1)"] by simp
qed

text \<open>
  C10. When \<^verbatim>\<open>argv\<close> carries no error, every checker returns a nullable value and the
  command has no action, \<^verbatim>\<open>execute\<close> resolves to the empty string whatever the fallback
  and the fuel are, and the only events are the calls of the checkers: no queue is
  built and no continuation is called.
\<close>

theorem execute_no_actions:
  assumes "error argv = []" and "\<forall>c \<in> set (checkers cmd). c argv = Inr Nullish" and "actions cmd = []"
  shows "execute fuel max_depth cmd argv fallback
           = Some (Inr (Fragment []), map Checker [0..<length (checkers cmd)])"
  using assms run_checkers_pass [of "checkers cmd" argv 0] by (simp add: execute_def)

theorem execute_no_actions_witness:
  "execute 0 64 quiet_cmd argv0 (Throw (Failure ''fallback'')) = Some (Inr (Fragment []), [Checker 0])"
  using execute_no_actions [of argv0 quiet_cmd 0 64 "Throw (Failure ''fallback'')"]
  by (simp add: argv0_def quiet_cmd_def)

text \<open>
  C7. When \<^verbatim>\<open>argv\<close> carries no error and a checker returns a value that is not nullable,
  the checkers before it having returned nullable values, \<^verbatim>\<open>execute\<close> resolves to that
  value whatever the later checkers, the actions and the fallback are, and the only
  events are the calls of the checkers up to that one.
\<close>

theorem execute_checker_short_circuit:
  assumes "error argv = []" and "checkers cmd = cs1 @ c # cs2"
    and "\<forall>c' \<in> set cs1. c' argv = Inr Nullish" and "c argv = Inr (Fragment v)"
  shows "execute fuel max_depth cmd argv fallback
           = Some (Inr (Fragment v), map Checker [0..<Suc (length cs1)])"
  using assms run_checkers_stop [of cs1 argv c v cs2 0] by (simp add: execute_def)

theorem execute_checker_short_circuit_witness:
  "execute 9 64 guarded_cmd argv0 (Throw (Failure ''fallback''))
     = Some (Inr (Fragment ''denied''), [Checker 0, Checker 1])"
  using execute_checker_short_circuit [of argv0 guarded_cmd "[\<lambda>argv. Inr Nullish]" "\<lambda>argv. Inr (Fragment ''denied'')"
      "[\<lambda>argv. Inl (Failure ''third checker'')]" "''denied''" 9 64 "Throw (Failure ''fallback'')"]
  by (simp add: argv0_def guarded_cmd_def)

lemma run_checkers_order:
  "\<exists>n \<le> length cs. snd (run_checkers cs argv k) = map Checker [k..<k + n]"
proof (induction cs arbitrary: k)
  case Nil
  then show ?case by simp
next
  case (Cons c cs)
  show ?case
  proof (cases "c argv = Inr Nullish")
    case True
    obtain n where n: "n \<le> length cs" "snd (run_checkers cs argv (Suc k)) = map Checker [Suc k..<Suc k + n]"
      using Cons.IH [of "Suc k"] by blast
    have "snd (run_checkers (c # cs) argv k) = map Checker [k..<k + Suc n]"
      using True n(2) upt_head [of k n] by (simp add: case_prod_beta)
    then show ?thesis using n(1) by (intro exI [of _ "Suc n"]) simp
  next
    case False
    then have "snd (run_checkers (c # cs) argv k) = map Checker [k..<k + 1]"
      by (auto split: sum.splits)
    then show ?thesis by (intro exI [of _ 1]) simp
  qed
qed

lemma lower_foo: "toLowerCase ''foo'' = ''foo''"
  by code_simp

lemma lower_a: "toLowerCase ''a'' = ''a''"
  by code_simp

text \<open>
  C6. The checkers are called in the order of \<^verbatim>\<open>_checkers\<close>. \<^verbatim>\<open>before\<close> and
  \<^verbatim>\<open>check\<close> with \<^verbatim>\<open>append = false\<close>, the default, put the callback first in that list: it
  is called first, before the checker installed at construction and before every
  checker added earlier, and when it answers no other checker is called. With
  \<^verbatim>\<open>append = true\<close> the callback is last and is called after all others have passed.
\<close>

theorem before_order:
  "checkers (before callback False cmd) = callback # checkers cmd
   \<and> checkers (before callback True cmd) = checkers cmd @ [callback]
   \<and> check_cmd callback append' cmd = before callback append' cmd
   \<and> (\<exists>n \<le> length cs. snd (run_checkers cs argv k) = map Checker [k..<k + n])
   \<and> (error argv = [] \<and> callback argv = Inr (Fragment v) \<longrightarrow>
        execute fuel max_depth (before callback False cmd) argv fallback
          = Some (Inr (Fragment v), [Checker 0]))
   \<and> (error argv = [] \<and> (\<forall>c \<in> set (checkers cmd). c argv = Inr Nullish) \<and> callback argv = Inr (Fragment v) \<longrightarrow>
        execute fuel max_depth (before callback True cmd) argv fallback
          = Some (Inr (Fragment v), map Checker [0..<Suc (length (checkers cmd))]))"
proof (intro conjI impI)
  show "checkers (before callback False cmd) = callback # checkers cmd"
    by (simp add: before_def)
  show "checkers (before callback True cmd) = checkers cmd @ [callback]"
    by (simp add: before_def)
  show "check_cmd callback append' cmd = before callback append' cmd"
    by (simp add: check_cmd_def)
  show "\<exists>n \<le> length cs. snd (run_checkers cs argv k) = map Checker [k..<k + n]"
    by (rule run_checkers_order)
  show "execute fuel max_depth (before callback False cmd) argv fallback = Some (Inr (Fragment v), [Checker 0])"
    if "error argv = [] \<and> callback argv = Inr (Fragment v)"
    using that by (simp add: execute_def before_def)
  show "execute fuel max_depth (before callback True cmd) argv fallback
          = Some (Inr (Fragment v), map Checker [0..<Suc (length (checkers cmd))])"
    if "error argv = [] \<and> (\<forall>c \<in> set (checkers cmd). c argv = Inr Nullish) \<and> callback argv = Inr (Fragment v)"
    using that run_checkers_stop [of "checkers cmd" argv callback v "[]" 0]
    by (simp add: execute_def before_def)
qed

theorem before_order_witness:
  "execute 0 64 (before user_checker False foo_cmd) argv0 (Return Nullish)
     = Some (Inr (Fragment ''user''), [Checker 0])
   \<and> execute 0 64 (before user_checker True quiet_cmd) argv0 (Return Nullish)
     = Some (Inr (Fragment ''user''), [Checker 0, Checker 1])"
  using before_order [where callback = user_checker and cmd = foo_cmd and argv = argv0 and v = "''user''"
       and fuel = 0 and max_depth = 64 and fallback = "Return Nullish"]
     before_order [where callback = user_checker and cmd = quiet_cmd and argv = argv0 and v = "''user''"
       and fuel = 0 and max_depth = 64 and fallback = "Return Nullish"]
  by (simp add: argv0_def user_checker_def quiet_cmd_def)

text \<open>
  The constructor installs \<open>default_checker\<close>; a checker added with the default mode
  answers before it, where the default checker alone would have answered.
\<close>

theorem before_order_counterexample:
  "Command_new 1 ''foo'' default_checker commander0
     = (Inr foo_cmd, \<lparr>commands = [''foo'' \<mapsto> 1], commandList = [1]\<rparr>)
   \<and> execute 0 64 (before user_checker False foo_cmd) argv0 (Return Nullish)
     = Some (Inr (Fragment ''user''), [Checker 0])
   \<and> execute 0 64 foo_cmd argv0 (Return Nullish)
     = Some (Inr (Fragment ''default''), [Checker 0])"
  by (simp add: Let_def Command_new_def registerAlias_def lower_foo startsWith_def commander0_def foo_cmd_def
      execute_def before_def argv0_def user_checker_def default_checker_def)

text \<open>
  What \<^verbatim>\<open>_registerAlias\<close> does on a name that the command does not have yet: it
  throws when the registry maps the name to another command, and a call that throws
  leaves the registry as it was. On a name the command has already, it returns
  without reading the registry.
\<close>

lemma registerAlias_throw_registry:
  "registerAlias name0 prepend cmd commander = (Inl e, cmd', commander') \<Longrightarrow> commander' = commander"
  by (auto simp: registerAlias_def Let_def split: if_splits option.splits sum.splits)

lemma registerAlias_fresh_duplicate:
  assumes "\<not> startsWith (toLowerCase name0) ''.''" and "toLowerCase name0 \<notin> set (aliases cmd)"
    and "commands commander (toLowerCase name0) = Some previous" and "previous \<noteq> ref cmd"
  shows "registerAlias name0 False cmd commander
           = (Inl (DuplicateNames (toLowerCase name0)),
              cmd\<lparr>aliases := aliases cmd @ [toLowerCase name0]\<rparr>, commander)"
  using assms by (simp add: registerAlias_def Let_def)

lemma Command_new_duplicate:
  assumes "\<not> startsWith (toLowerCase name0) ''.''"
    and "commands commander (toLowerCase name0) = Some previous" and "previous \<noteq> new_ref"
  shows "Command_new new_ref name0 before_execute commander
           = (Inl (DuplicateNames (toLowerCase name0)), commander)"
  using assms by (simp add: Command_new_def registerAlias_def Let_def)

lemma registerAlias_known_silent:
  assumes "\<not> startsWith (toLowerCase name0) ''.''" and "toLowerCase name0 \<in> set (aliases cmd)"
  shows "registerAlias name0 False cmd commander = (Inr (), cmd, commander)"
  using assms by (simp add: registerAlias_def Let_def)

text \<open>
  C9. The registry maps \<^verbatim>\<open>a\<close> to another command. The first \<^verbatim>\<open>alias('a')\<close> on command
  \<^verbatim>\<open>b\<close> throws and leaves the registry as it was, but it has already put \<^verbatim>\<open>a\<close> in the
  command's own \<^verbatim>\<open>_aliases\<close>; the same call made again finds the name there and returns
  without an error.
\<close>

theorem alias_retry_silent:
  "alias_cmd [''a''] cmd_b commander_ab = (Inl (DuplicateNames ''a''), cmd_b_after, commander_ab)
   \<and> alias_cmd [''a''] cmd_b_after commander_ab = (Inr (), cmd_b_after, commander_ab)"
  by (simp add: Let_def registerAlias_def lower_a startsWith_def commander_ab_def cmd_b_def cmd_b_after_def)

section \<open>Properties of \<^verbatim>\<open>execute\<close>: the cursor and the error boundary\<close>

lemma set_dispatches: "set (dispatches events) = {i. Invoke i \<in> set events \<or> Idle i \<in> set events}"
proof -
  have "set (cursor ev) = {i. ev = Invoke i \<or> ev = Idle i}" for ev
    by (cases ev) auto
  then show ?thesis by (auto simp: dispatches_def)
qed

lemma dispatches_append [simp]: "dispatches (xs @ ys) = dispatches xs @ dispatches ys"
  by (simp add: dispatches_def)

lemma cursor_ok_push: "cursor_ok n s \<Longrightarrow> cursor_ok n (s\<lparr>queue := queue s @ [p]\<rparr>)"
  by (simp add: cursor_ok_def)

lemma cursor_ok_invoke:
  "cursor_ok n s \<Longrightarrow> cursor_ok n (s\<lparr>index := index s + 1, trace := trace s @ [Invoke (index s)]\<rparr>)"
  by (auto simp: cursor_ok_def dispatches_def)

lemma cursor_ok_idle:
  "cursor_ok n s \<Longrightarrow> \<not> index s < length (queue s) \<Longrightarrow>
     cursor_ok n (s\<lparr>index := index s + 1, trace := trace s @ [Idle (index s)]\<rparr>)"
  by (auto simp: cursor_ok_def dispatches_def)

lemma argv_next_None:
  "argv_next exec max_depth None s =
     (if index s < length (queue s)
      then exec (queue s ! index s) (s\<lparr>index := index s + 1, trace := trace s @ [Invoke (index s)]\<rparr>)
      else Some (Inr Nullish, s\<lparr>index := index s + 1, trace := trace s @ [Idle (index s)]\<rparr>))"
  by (simp add: argv_next_def Let_def)

lemma argv_next_Some:
  "argv_next exec max_depth (Some cb) s =
     (if max_depth \<le> length (queue s)
      then Some (Inl (DepthExceeded max_depth), s\<lparr>queue := queue s @ [compose cb]\<rparr>)
      else argv_next exec max_depth None (s\<lparr>queue := queue s @ [compose cb]\<rparr>))"
  by (auto simp: argv_next_def Let_def)

lemma argv_next_None_cursor_ok:
  assumes exec: "\<And>p t r t'. exec p t = Some (r, t') \<Longrightarrow> cursor_ok n t \<Longrightarrow> cursor_ok n t'"
    and "argv_next exec max_depth None s = Some (r, s')" and "cursor_ok n s"
  shows "cursor_ok n s'"
proof (cases "index s < length (queue s)")
  case True
  then have "exec (queue s ! index s)
      (s\<lparr>index := index s + 1, trace := trace s @ [Invoke (index s)]\<rparr>) = Some (r, s')"
    using assms(2) by (simp add: argv_next_None)
  then show ?thesis using exec cursor_ok_invoke [OF assms(3)] by blast
next
  case False
  then have "s' = s\<lparr>index := index s + 1, trace := trace s @ [Idle (index s)]\<rparr>"
    using assms(2) by (simp add: argv_next_None)
  then show ?thesis using cursor_ok_idle [OF assms(3) False] by simp
qed

lemma argv_next_cursor_ok:
  assumes exec: "\<And>p t r t'. exec p t = Some (r, t') \<Longrightarrow> cursor_ok n t \<Longrightarrow> cursor_ok n t'"
    and "argv_next exec max_depth callback s = Some (r, s')" and "cursor_ok n s"
  shows "cursor_ok n s'"
proof (cases callback)
  case None
  with assms(2) have a: "argv_next exec max_depth None s = Some (r, s')" by simp
  show ?thesis
  proof (rule argv_next_None_cursor_ok [where exec = exec and n = n])
    show "argv_next exec max_depth None s = Some (r, s')" by (rule a)
    show "cursor_ok n s" by (rule assms(3))
    show "\<And>p t r t'. exec p t = Some (r, t') \<Longrightarrow> cursor_ok n t \<Longrightarrow> cursor_ok n t'" by (rule exec)
  qed
next
  case (Some cb)
  show ?thesis
  proof (cases "max_depth \<le> length (queue s)")
    case True
    then have "s' = s\<lparr>queue := queue s @ [compose cb]\<rparr>"
      using assms(2) Some by (simp add: argv_next_Some)
    then show ?thesis using cursor_ok_push [OF assms(3)] by simp
  next
    case False
    then have a: "argv_next exec max_depth None (s\<lparr>queue := queue s @ [compose cb]\<rparr>) = Some (r, s')"
      using assms(2) Some by (simp add: argv_next_Some)
    show ?thesis
    proof (rule argv_next_None_cursor_ok [where exec = exec and n = n])
      show "argv_next exec max_depth None (s\<lparr>queue := queue s @ [compose cb]\<rparr>) = Some (r, s')" by (rule a)
      show "cursor_ok n (s\<lparr>queue := queue s @ [compose cb]\<rparr>)" by (rule cursor_ok_push [OF assms(3)])
      show "\<And>p t r t'. exec p t = Some (r, t') \<Longrightarrow> cursor_ok n t \<Longrightarrow> cursor_ok n t'" by (rule exec)
    qed
  qed
qed

lemma run_cursor_ok:
  "run fuel max_depth p s = Some (r, s') \<Longrightarrow> cursor_ok n s \<Longrightarrow> cursor_ok n s'"
proof (induction fuel arbitrary: p s r s')
  case 0
  then show ?case by simp
next
  case (Suc fuel)
  show ?case
  proof (cases p)
    case (Return v)
    then show ?thesis using Suc.prems by simp
  next
    case (Throw e)
    then show ?thesis using Suc.prems by simp
  next
    case (CallNext callback k)
    then obtain r1 s1 where a: "argv_next (run fuel max_depth) max_depth callback s = Some (r1, s1)"
      and b: "run fuel max_depth (k r1) s1 = Some (r, s')"
      using Suc.prems(1) by (auto split: option.splits)
    have "cursor_ok n s1"
      using argv_next_cursor_ok [of "run fuel max_depth" n, OF _ a Suc.prems(2)] Suc.IH by blast
    then show ?thesis using Suc.IH [OF b] by simp
  qed
qed

lemma run_checkers_events:
  "run_checkers cs argv k = (r, events) \<Longrightarrow> dispatches events = [] \<and> (\<forall>i. Idle i \<notin> set events)"
proof (induction cs arbitrary: k r events)
  case Nil
  then show ?case by (simp add: dispatches_def)
next
  case (Cons c cs)
  show ?case
  proof (cases "c argv = Inr Nullish")
    case True
    obtain r' events' where step: "run_checkers cs argv (Suc k) = (r', events')"
      by (cases "run_checkers cs argv (Suc k)")
    then have "events = Checker k # events'"
      using Cons.prems True by simp
    then show ?thesis using Cons.IH [OF step] by (simp add: dispatches_def)
  next
    case False
    then have "events = [Checker k]"
      using Cons.prems by (auto split: sum.splits if_splits)
    then show ?thesis by (simp add: dispatches_def)
  qed
qed

lemma initial_cursor_ok:
  "run_checkers (checkers cmd) argv 0 = (None, events) \<Longrightarrow>
     cursor_ok (Suc (length (actions cmd))) (initial cmd argv fallback events)"
  using run_checkers_events [of "checkers cmd" argv 0 None events] by (simp add: cursor_ok_def initial_def)

lemma cursor_ok_boundary:
  assumes "cursor_ok n s" and "0 < n"
  shows "index s = n \<longleftrightarrow> dispatches (trace s) = [0..<n]"
    and "Invoke (n - 1) \<notin> set (trace s) \<Longrightarrow> index s < n"
    and "Invoke j \<in> set (trace s) \<Longrightarrow> n \<le> j \<Longrightarrow> n < index s"
proof -
  have d: "dispatches (trace s) = [0..<index s]" and i: "\<And>i. Idle i \<in> set (trace s) \<Longrightarrow> n \<le> i"
    using assms(1) by (auto simp: cursor_ok_def)
  show "index s = n \<longleftrightarrow> dispatches (trace s) = [0..<n]"
    using d by (metis length_upt diff_zero)
  have s: "{i. Invoke i \<in> set (trace s) \<or> Idle i \<in> set (trace s)} = {0..<index s}"
    using set_dispatches [of "trace s"] d by simp
  show "index s < n" if "Invoke (n - 1) \<notin> set (trace s)"
  proof (rule ccontr)
    assume "\<not> index s < n"
    then have "n - 1 \<in> {0..<index s}" using assms(2) by auto
    then have "Invoke (n - 1) \<in> set (trace s) \<or> Idle (n - 1) \<in> set (trace s)" using s by blast
    then show False using that i [of "n - 1"] assms(2) by auto
  qed
  show "n < index s" if "Invoke j \<in> set (trace s)" "n \<le> j"
  proof -
    have "j \<in> {0..<index s}" using s that(1) by blast
    then show ?thesis using that(2) by simp
  qed
qed

lemma execute_try:
  assumes "error argv = []" and "run_checkers (checkers cmd) argv 0 = (None, events)" and "actions cmd \<noteq> []"
  shows "execute fuel max_depth cmd argv fallback =
           (case argv_next (run fuel max_depth) max_depth None (initial cmd argv fallback events) of
              None \<Rightarrow> None
            | Some (Inr result, s) \<Rightarrow> Some (Inr (or_empty result), trace s)
            | Some (Inl e, s) \<Rightarrow> Some (recover cmd argv (Suc (length (actions cmd))) e s))"
  using assms by (simp add: execute_def initial_def Let_def split: option.splits prod.splits sum.splits)

lemma try_cursor_ok:
  assumes "run_checkers (checkers cmd) argv 0 = (None, events)"
    and "argv_next (run fuel max_depth) max_depth None (initial cmd argv fallback events) = Some (r, s)"
  shows "cursor_ok (Suc (length (actions cmd))) s"
proof (rule argv_next_cursor_ok [where exec = "run fuel max_depth"])
  show "argv_next (run fuel max_depth) max_depth None (initial cmd argv fallback events) = Some (r, s)"
    by (rule assms(2))
  show "cursor_ok (Suc (length (actions cmd))) (initial cmd argv fallback events)"
    by (rule initial_cursor_ok [OF assms(1)])
  show "\<And>p t r t'. run fuel max_depth p t = Some (r, t') \<Longrightarrow>
      cursor_ok (Suc (length (actions cmd))) t \<Longrightarrow> cursor_ok (Suc (length (actions cmd))) t'"
    by (rule run_cursor_ok)
qed

lemmas exec_defs = execute_def recover_def by_policy_def or_empty_def initial_def pass_on_def
  argv_next_None argv_next_Some Let_def argv0_def



lemma depth_policy:
  "handleError cmd = Policy b \<Longrightarrow>
     by_policy cmd argv (DepthExceeded d) evs
       = (Inr (Fragment (if b then session_text argv ''internal.error-encountered'' [] else [])),
          evs @ [CommandError (DepthExceeded d)])"
  by (simp add: by_policy_def)

lemma execute_caught:
  assumes "error argv = []" and "run_checkers (checkers cmd) argv 0 = (None, events)" and "actions cmd \<noteq> []"
    and "argv_next (run fuel max_depth) max_depth None (initial cmd argv fallback events) = Some (Inl e, s)"
  shows "execute fuel max_depth cmd argv fallback
           = Some (if index s = Suc (length (actions cmd)) then (Inl e, trace s)
                   else by_policy cmd argv e (trace s))"
  using execute_try [OF assms(1-3), of fuel max_depth fallback] assms(4) by (simp add: recover_def)




text \<open>
  C3. A call \<^verbatim>\<open>next(cb)\<close> on a queue that has \<^verbatim>\<open>MAX_DEPTH\<close> entries or more fails with
  the depth error after appending the continuation, without moving the cursor and
  without calling any continuation; below that length it goes on as \<^verbatim>\<open>next()\<close> does.
  When the depth error ends the \<^verbatim>\<open>try\<close> block of \<^verbatim>\<open>execute\<close>, it is thrown to the
  caller only if the cursor equals the length taken before any continuation was
  appended; otherwise it is converted by the policy as any other error is, under
  \<^verbatim>\<open>handleError: true\<close> into the text \<^verbatim>\<open>internal.error-encountered\<close>.
\<close>

theorem depth_error_boundary:
  "(max_depth \<le> length (queue s) \<longrightarrow>
      argv_next exec max_depth (Some cb) s
        = Some (Inl (DepthExceeded max_depth), s\<lparr>queue := queue s @ [compose cb]\<rparr>))
   \<and> (length (queue s) < max_depth \<longrightarrow>
      argv_next exec max_depth (Some cb) s
        = argv_next exec max_depth None (s\<lparr>queue := queue s @ [compose cb]\<rparr>))
   \<and> (error argv = [] \<and> run_checkers (checkers cmd) argv 0 = (None, events) \<and> actions cmd \<noteq> []
        \<and> argv_next (run fuel max_depth) max_depth None (initial cmd argv fallback events)
             = Some (Inl (DepthExceeded max_depth), t) \<longrightarrow>
        (index t = Suc (length (actions cmd)) \<longleftrightarrow> dispatches (trace t) = [0..<Suc (length (actions cmd))])
        \<and> execute fuel max_depth cmd argv fallback
            = Some (if index t = Suc (length (actions cmd)) then (Inl (DepthExceeded max_depth), trace t)
                    else by_policy cmd argv (DepthExceeded max_depth) (trace t))
        \<and> (handleError cmd = Policy b \<longrightarrow>
             by_policy cmd argv (DepthExceeded max_depth) (trace t)
               = (Inr (Fragment (if b then session_text argv ''internal.error-encountered'' [] else [])),
                  trace t @ [CommandError (DepthExceeded max_depth)])))"
proof (intro conjI impI)
  show "argv_next exec max_depth (Some cb) s
        = Some (Inl (DepthExceeded max_depth), s\<lparr>queue := queue s @ [compose cb]\<rparr>)"
    if "max_depth \<le> length (queue s)"
    using that by (simp add: argv_next_Some)
  show "argv_next exec max_depth (Some cb) s
        = argv_next exec max_depth None (s\<lparr>queue := queue s @ [compose cb]\<rparr>)"
    if "length (queue s) < max_depth"
    using that by (simp add: argv_next_Some)
next
  assume a: "error argv = [] \<and> run_checkers (checkers cmd) argv 0 = (None, events) \<and> actions cmd \<noteq> []
        \<and> argv_next (run fuel max_depth) max_depth None (initial cmd argv fallback events)
             = Some (Inl (DepthExceeded max_depth), t)"
  then have ok: "cursor_ok (Suc (length (actions cmd))) t"
    using try_cursor_ok by blast
  show "index t = Suc (length (actions cmd)) \<longleftrightarrow> dispatches (trace t) = [0..<Suc (length (actions cmd))]"
    by (rule cursor_ok_boundary(1) [OF ok]) simp
  show "execute fuel max_depth cmd argv fallback
            = Some (if index t = Suc (length (actions cmd)) then (Inl (DepthExceeded max_depth), trace t)
                    else by_policy cmd argv (DepthExceeded max_depth) (trace t))"
    using a execute_caught by blast
  show "by_policy cmd argv (DepthExceeded max_depth) (trace t)
               = (Inr (Fragment (if b then session_text argv ''internal.error-encountered'' [] else [])),
                  trace t @ [CommandError (DepthExceeded max_depth)])"
    if "handleError cmd = Policy b"
    using that by (rule depth_policy)
qed

theorem depth_error_boundary_witness:
  "argv_next (run 3 64) 64 (Some (CbFun (Return Nullish)))
       \<lparr>queue = replicate 64 (Return Nullish), index = 0, trace = []\<rparr>
     = Some (Inl (DepthExceeded 64),
             \<lparr>queue = replicate 64 (Return Nullish) @ [Return Nullish], index = 0, trace = []\<rparr>)
   \<and> execute 5 64 deep_cmd argv0 (Return Nullish)
     = Some (Inr (Fragment ''internal.error-encountered''), [Invoke 0, CommandError (DepthExceeded 64)])
   \<and> execute 5 2 passing_cmd argv0 (CallNext (Some (CbFun (Return Nullish))) pass_on)
     = Some (Inl (DepthExceeded 2), [Invoke 0, Invoke 1])"
  using
    depth_error_boundary [where max_depth = 2 and argv = argv0 and cmd = passing_cmd and events = "[]"
      and fuel = 5 and fallback = "CallNext (Some (CbFun (Return Nullish))) pass_on" and b = True
      and exec = "run 3 2" and cb = "CbFun (Return Nullish)"
      and s = "\<lparr>queue = [Return Nullish], index = 0, trace = []\<rparr>"
      and t = "\<lparr>queue = [CallNext None pass_on, CallNext (Some (CbFun (Return Nullish))) pass_on, Return Nullish],
                index = 2, trace = [Invoke 0, Invoke 1]\<rparr>"]
    depth_error_boundary [where max_depth = 64 and argv = argv0 and cmd = deep_cmd and events = "[]"
      and fuel = 5 and fallback = "Return Nullish" and b = True
      and exec = "run 3 64" and cb = "CbFun (Return Nullish)"
      and s = "\<lparr>queue = replicate 64 (Return Nullish), index = 0, trace = []\<rparr>"
      and t = "\<lparr>queue = (CallNext (Some (CbFun (Return Nullish))) pass_on # replicate 63 (Return Nullish))
                       @ [Return Nullish, Return Nullish],
                index = 1, trace = [Invoke 0]\<rparr>"]
  by (simp add: exec_defs deep_cmd_def passing_cmd_def eval_nat_numeral)

text \<open>
  With \<^verbatim>\<open>MAX_DEPTH = 64\<close>: an action whose callbacks keep calling \<^verbatim>\<open>next(cb)\<close>, run
  with a fallback that calls \<^verbatim>\<open>next()\<close>, exceeds the depth when the continuation at
  place 63 appends one more; and the first of 64 actions exceeds it with its first
  \<^verbatim>\<open>next(cb)\<close>. Both times the caller receives a text, not the error.
\<close>

theorem depth_error_boundary_counterexample:
  "execute 70 64 runaway_cmd argv0 (CallNext None pass_on)
     = Some (Inr (Fragment ''internal.error-encountered''),
             map Invoke [0..<64] @ [CommandError (DepthExceeded 64)])
   \<and> execute 5 64 deep_cmd argv0 (Return Nullish)
     = Some (Inr (Fragment ''internal.error-encountered''), [Invoke 0, CommandError (DepthExceeded 64)])"
proof
  show "execute 70 64 runaway_cmd argv0 (CallNext None pass_on)
     = Some (Inr (Fragment ''internal.error-encountered''),
             map Invoke [0..<64] @ [CommandError (DepthExceeded 64)])"
    by code_simp
  show "execute 5 64 deep_cmd argv0 (Return Nullish)
     = Some (Inr (Fragment ''internal.error-encountered''), [Invoke 0, CommandError (DepthExceeded 64)])"
    by (simp add: exec_defs deep_cmd_def eval_nat_numeral)
qed

end
